theory Spec2Isabelle
  imports Main
begin

section \<open>Data model of \<open>StreamWindow.js\<close>\<close>

text \<open>
  A box is one element of the array returned by \<open>boxesFromViewURLMap\<close>: the object
  \<open>{ url, x, y, w, h, spaces }\<close> destructured at the top of the loop of \<open>setViews\<close>.
  The geometry module is not among the sources, so the array of boxes is the input of the
  model of \<open>setViews\<close>. A url is \<open>None\<close> for \<open>undefined\<close>/\<open>null\<close> and \<open>Some s\<close> for a
  string; the record fields carry a prefix because \<open>x\<close>, \<open>y\<close>, \<open>w\<close>, \<open>h\<close> would
  otherwise become constants.
\<close>

record box =
  box_url :: "string option"
  box_x :: int
  box_y :: int
  box_w :: int
  box_h :: int
  box_spaces :: "int list"

text \<open>The object \<open>pos\<close> built in \<open>setViews\<close> and carried by a \<open>DISPLAY\<close> event.\<close>

record pos =
  pos_x :: int
  pos_y :: int
  width :: int
  height :: int
  spaces :: "int list"

text \<open>
  What \<open>StreamWindow\<close> sends to a view service: the object
  \<open>{ type: 'DISPLAY', pos, url }\<close> and the strings \<open>'CLEAR'\<close>, \<open>'MUTE'\<close>, \<open>'UNMUTE'\<close>.
\<close>

datatype event = DISPLAY pos string | CLEAR | MUTE | UNMUTE

text \<open>
  Modelled from the spec: the values of \<open>state.value\<close>, which \<open>viewStateMachine\<close> (not
  among the sources) declares. They are the three lifecycle states of section 4.2 of the
  specification.
\<close>

datatype lifecycle = Idle | Loading | Displaying

text \<open>
  The state of one view service as \<open>StreamWindow\<close> reads it: \<open>state.value\<close>,
  \<open>state.context.url\<close>, \<open>state.context.info\<close>, \<open>state.context.pos\<close> (\<open>None\<close> when
  there is none), and the mute flag that the specification gives every slot.
\<close>

record view =
  lifecycle :: lifecycle
  ctx_url :: "string option"
  ctx_info :: "string option"
  ctx_pos :: "pos option"
  muted :: bool

text \<open>
  What \<open>StreamWindow.js\<close> imports and the sources do not contain: the transition function
  of \<open>viewStateMachine\<close> (one synchronous \<open>service.send\<close>, which acts on the state of
  that service only) and the pixel constants of \<open>../constants\<close>. They are parameters of
  the model. The listener \<open>handleViewTransition\<close>, which copies each new state into
  \<open>viewStates\<close> and emits it, writes to no service and is left out.
\<close>

record deps =
  send :: "view \<Rightarrow> event \<Rightarrow> view"
  SPACE_WIDTH :: int
  SPACE_HEIGHT :: int

text \<open>
  The array \<open>this.views\<close> is a \<open>view list\<close>; a service is identified by its index.
  Every \<open>send\<close> is recorded, in order, with the index of the service that received it.
\<close>

type_synonym sent = "(nat \<times> event) list"

text \<open>
  \<open>space.send\<close> on \<open>undefined\<close> and \<open>context.pos.spaces\<close> on a missing \<open>pos\<close> throw a
  TypeError; the exception leaves the method with the views as they are at that moment
  and with the events sent so far.
\<close>

datatype error = TypeError "view list" sent

section \<open>\<open>setViews\<close>\<close>

text \<open>\<open>!url\<close>: \<open>undefined\<close>, \<open>null\<close> and the empty string are falsy.\<close>

definition falsy :: "string option \<Rightarrow> bool" where
  "falsy u = (case u of None \<Rightarrow> True | Some s \<Rightarrow> s = [])"

text \<open>\<open>s.state.matches('displaying')\<close>\<close>

definition matches_displaying :: "view \<Rightarrow> bool" where
  "matches_displaying s = (lifecycle s = Displaying)"

text \<open>
  The two \<open>views.find\<close> calls: the first service, in the order of \<open>views\<close>, that is in
  \<open>unusedViews\<close> and has the url; failing that, the first one in \<open>unusedViews\<close> that is
  not displaying. \<open>None\<close> is \<open>undefined\<close>.
\<close>

definition find_space :: "view list \<Rightarrow> nat list \<Rightarrow> string \<Rightarrow> nat option" where
  "find_space views unusedViews u =
     (case List.find (\<lambda>s. s \<in> set unusedViews \<and> ctx_url (views ! s) = Some u)
             [0..<length views] of
        Some s \<Rightarrow> Some s
      | None \<Rightarrow>
          List.find (\<lambda>s. s \<in> set unusedViews \<and> \<not> matches_displaying (views ! s))
            [0..<length views])"

definition box_pos :: "deps \<Rightarrow> box \<Rightarrow> pos" where
  "box_pos E b =
     \<lparr> pos_x = SPACE_WIDTH E * box_x b,
       pos_y = SPACE_HEIGHT E * box_y b,
       width = SPACE_WIDTH E * box_w b,
       height = SPACE_HEIGHT E * box_h b,
       spaces = box_spaces b \<rparr>"

text \<open>The object \<open>{ type: 'DISPLAY', pos, url }\<close> sent for a box whose url is truthy.\<close>

definition display_event :: "deps \<Rightarrow> box \<Rightarrow> event" where
  "display_event E b = DISPLAY (box_pos E b) (the (box_url b))"

text \<open>
  The loop \<open>for (const box of boxes)\<close>. The state is the array of views, the set
  \<open>unusedViews\<close> (a list, in insertion order, as a JavaScript \<open>Set\<close> iterates) and the
  events sent. The views are read as they are when the box is processed.
\<close>

fun assign_boxes ::
  "deps \<Rightarrow> box list \<Rightarrow> view list \<Rightarrow> nat list \<Rightarrow> sent \<Rightarrow>
     error + (view list \<times> nat list \<times> sent)" where
  "assign_boxes E [] views unusedViews log = Inr (views, unusedViews, log)"
| "assign_boxes E (b # boxes) views unusedViews log =
     (if falsy (box_url b) then assign_boxes E boxes views unusedViews log
      else
        (case find_space views unusedViews (the (box_url b)) of
           None \<Rightarrow> Inl (TypeError views log)
         | Some s \<Rightarrow>
             assign_boxes E boxes
               (views[s := send E (views ! s) (display_event E b)])
               (removeAll s unusedViews)
               (log @ [(s, display_event E b)])))"

text \<open>The loop \<open>for (const space of unusedViews) space.send('CLEAR')\<close>.\<close>

fun clear_unused :: "deps \<Rightarrow> nat list \<Rightarrow> view list \<Rightarrow> sent \<Rightarrow> view list \<times> sent" where
  "clear_unused E [] views log = (views, log)"
| "clear_unused E (s # unusedViews) views log =
     clear_unused E unusedViews (views[s := send E (views ! s) CLEAR]) (log @ [(s, CLEAR)])"

text \<open>
  \<open>setViews\<close>, from the boxes on: \<open>unusedViews\<close> starts as the set of all views, the
  first loop runs, and the views still unused are cleared. A TypeError leaves the method
  before the second loop.
\<close>

definition setViews :: "deps \<Rightarrow> view list \<Rightarrow> box list \<Rightarrow> error + (view list \<times> sent)" where
  "setViews E views boxes =
     (case assign_boxes E boxes views [0..<length views] [] of
        Inl e \<Rightarrow> Inl e
      | Inr (views', unusedViews, log) \<Rightarrow> Inr (clear_unused E unusedViews views' log))"

section \<open>\<open>setListeningView\<close>\<close>

text \<open>
  The loop \<open>for (const view of views)\<close>: a view that is not displaying is skipped; a
  displaying view is sent \<open>UNMUTE\<close> when \<open>context.pos.spaces\<close> includes \<open>viewIdx\<close> and
  \<open>MUTE\<close> otherwise. The index is an \<open>int\<close>, so that indices outside the grid exist.
\<close>

fun listen_views ::
  "deps \<Rightarrow> int \<Rightarrow> nat list \<Rightarrow> view list \<Rightarrow> sent \<Rightarrow> error + (view list \<times> sent)" where
  "listen_views E viewIdx [] views log = Inr (views, log)"
| "listen_views E viewIdx (i # rest) views log =
     (if \<not> matches_displaying (views ! i) then listen_views E viewIdx rest views log
      else
        (case ctx_pos (views ! i) of
           None \<Rightarrow> Inl (TypeError views log)
         | Some p \<Rightarrow>
             listen_views E viewIdx rest
               (views[i := send E (views ! i) (if viewIdx \<in> set (spaces p) then UNMUTE else MUTE)])
               (log @ [(i, if viewIdx \<in> set (spaces p) then UNMUTE else MUTE)])))"

definition setListeningView :: "deps \<Rightarrow> view list \<Rightarrow> int \<Rightarrow> error + (view list \<times> sent)" where
  "setListeningView E views viewIdx = listen_views E viewIdx [0..<length views] views []"

section \<open>The read-then-act variant of the specification\<close>

text \<open>
  The specification describes the pass as reading the (url, lifecycle state) of the whole
  pool once and only then issuing commands. \<open>plan_boxes\<close> is the first phase: it
  searches in the snapshot alone and returns the commands planned, the views left unused,
  and whether every search found a candidate. \<open>issue\<close> is the second phase: it sends the
  planned commands in order. Where a search finds no candidate the variant sends what was
  planned before that box and then fails, as the loop of the source does.
\<close>

fun plan_boxes :: "deps \<Rightarrow> view list \<Rightarrow> box list \<Rightarrow> nat list \<Rightarrow> sent \<times> nat list \<times> bool" where
  "plan_boxes E snapshot [] unusedViews = ([], unusedViews, True)"
| "plan_boxes E snapshot (b # boxes) unusedViews =
     (if falsy (box_url b) then plan_boxes E snapshot boxes unusedViews
      else
        (case find_space snapshot unusedViews (the (box_url b)) of
           None \<Rightarrow> ([], unusedViews, False)
         | Some s \<Rightarrow>
             (case plan_boxes E snapshot boxes (removeAll s unusedViews) of
                (cmds, unusedViews', ok) \<Rightarrow> ((s, display_event E b) # cmds, unusedViews', ok))))"

fun issue :: "deps \<Rightarrow> sent \<Rightarrow> view list \<Rightarrow> sent \<Rightarrow> view list \<times> sent" where
  "issue E [] views log = (views, log)"
| "issue E ((s, ev) # cmds) views log =
     issue E cmds (views[s := send E (views ! s) ev]) (log @ [(s, ev)])"

definition setViews_read_then_act ::
  "deps \<Rightarrow> view list \<Rightarrow> box list \<Rightarrow> error + (view list \<times> sent)" where
  "setViews_read_then_act E views boxes =
     (case plan_boxes E views boxes [0..<length views] of
        (cmds, unusedViews, ok) \<Rightarrow>
          (case issue E cmds views [] of
             (views', log) \<Rightarrow>
               if ok then Inr (clear_unused E unusedViews views' log)
               else Inl (TypeError views' log)))"

section \<open>The view state machine of the specification\<close>

text \<open>
  Modelled from the spec: \<open>viewStateMachine\<close>, which \<open>StreamWindow.js\<close> imports and the
  sources do not contain. The transitions are those of section 4.2 of the specification:
  \<open>idle --DISPLAY--> loading\<close>; \<open>displaying --DISPLAY(same url)--> displaying\<close>, which
  updates \<open>pos\<close> only; \<open>displaying --DISPLAY(different url)--> loading\<close>;
  \<open>displaying | loading --CLEAR--> idle\<close>, which clears url, position and metadata;
  \<open>MUTE\<close> and \<open>UNMUTE\<close> set the mute flag in any state and leave the lifecycle state.
  Section 4.2 lists no \<open>DISPLAY\<close> for \<open>loading\<close>; section 5 says that a \<open>DISPLAY\<close>
  supersedes a load in flight, so the view stays \<open>loading\<close> with the new url and position.
  \<open>CLEAR\<close> in \<open>idle\<close> leaves the view idle with nothing assigned.
\<close>

fun slot_send :: "view \<Rightarrow> event \<Rightarrow> view" where
  "slot_send v (DISPLAY p u) =
     (case lifecycle v of
        Idle \<Rightarrow> v\<lparr>lifecycle := Loading, ctx_url := Some u, ctx_pos := Some p\<rparr>
      | Loading \<Rightarrow> v\<lparr>lifecycle := Loading, ctx_url := Some u, ctx_pos := Some p\<rparr>
      | Displaying \<Rightarrow>
          if ctx_url v = Some u then v\<lparr>ctx_pos := Some p\<rparr>
          else v\<lparr>lifecycle := Loading, ctx_url := Some u, ctx_pos := Some p\<rparr>)"
| "slot_send v CLEAR =
     v\<lparr>lifecycle := Idle, ctx_url := None, ctx_info := None, ctx_pos := None\<rparr>"
| "slot_send v MUTE = v\<lparr>muted := True\<rparr>"
| "slot_send v UNMUTE = v\<lparr>muted := False\<rparr>"

text \<open>
  Modelled from the spec: the events of the rendering surface,
  \<open>loading --content-ready--> displaying\<close> (records the metadata) and
  \<open>loading --content-failed--> idle\<close>.
\<close>

datatype surface_event = ContentReady string | ContentFailed

fun slot_event :: "view \<Rightarrow> surface_event \<Rightarrow> view" where
  "slot_event v (ContentReady i) =
     (if lifecycle v = Loading then v\<lparr>lifecycle := Displaying, ctx_info := Some i\<rparr> else v)"
| "slot_event v ContentFailed =
     (if lifecycle v = Loading
      then v\<lparr>lifecycle := Idle, ctx_url := None, ctx_info := None, ctx_pos := None\<rparr> else v)"

text \<open>
  The pool as \<open>init\<close> builds it: ten services, each in the initial state of the machine.
\<close>

definition idle_view :: view where
  "idle_view = \<lparr>lifecycle = Idle, ctx_url = None, ctx_info = None, ctx_pos = None, muted = False\<rparr>"

definition init_views :: "view list" where
  "init_views = replicate 10 idle_view"

text \<open>
  The dependencies with the machine of the specification; the pixel constants are those
  of a 1920 by 1080 window and a grid of six by six cells.
\<close>

definition spec_deps :: deps where
  "spec_deps = \<lparr>send = slot_send, SPACE_WIDTH = 320, SPACE_HEIGHT = 180\<rparr>"

section \<open>The content-discovery script\<close>

text \<open>
  The preload script (the second source file) runs once for every page load. What it
  awaits is an input of the model: the reply to \<open>view-init\<close> (the kind of the content,
  or a rejection, or no reply), whether the \<open>loaded\<close> event of the process fires, whether
  \<open>waitForVideo\<close> returns a media element, the \<open>videoWidth\<close> of that element (0 also
  for the width that an audio element does not have), whether its \<open>play\<close> event fires,
  and the title of the document.
\<close>

datatype kind = Video | Audio | Web | Other

datatype 'a outcome = Fulfilled 'a | Rejected | Pending

record page =
  view_init :: "kind outcome"
  loaded :: bool
  video_found :: bool
  video_width :: nat
  play_event :: bool
  title :: string

text \<open>The messages of \<open>ipcRenderer.send\<close>: \<open>view-info\<close> with the title, \<open>view-loaded\<close>, \<open>view-error\<close>.\<close>

datatype ipc = View_info string | View_loaded | View_error

text \<open>
  \<open>findVideo\<close>: it throws when \<open>waitForVideo\<close> returns no element; it waits for the
  \<open>play\<close> event when the element has no width yet; it returns the \<open>info\<close> object.
\<close>

definition findVideo :: "page \<Rightarrow> string outcome" where
  "findVideo pg =
     (if \<not> video_found pg then Rejected
      else if video_width pg = 0 \<and> \<not> play_event pg then Pending
      else Fulfilled (title pg))"

text \<open>
  \<open>main\<close>: the messages it sends and how its promise settles. \<open>Promise.all\<close> rejects as
  soon as \<open>view-init\<close> rejects and otherwise waits for both promises.
\<close>

definition main :: "page \<Rightarrow> ipc list \<times> unit outcome" where
  "main pg =
     (case view_init pg of
        Rejected \<Rightarrow> ([], Rejected)
      | Pending \<Rightarrow> ([], Pending)
      | Fulfilled k \<Rightarrow>
          if \<not> loaded pg then ([], Pending)
          else if k = Video \<or> k = Audio then
            (case findVideo pg of
               Rejected \<Rightarrow> ([], Rejected)
             | Pending \<Rightarrow> ([], Pending)
             | Fulfilled info \<Rightarrow> ([View_info info, View_loaded], Fulfilled ()))
          else ([View_loaded], Fulfilled ()))"

text \<open>The whole script: \<open>main().catch(...)\<close> sends \<open>view-error\<close> when the promise rejects.\<close>

definition script :: "page \<Rightarrow> ipc list" where
  "script pg =
     (case main pg of
        (msgs, Rejected) \<Rightarrow> msgs @ [View_error]
      | (msgs, _) \<Rightarrow> msgs)"

section \<open>Notions used in the statements\<close>

fun is_display :: "event \<Rightarrow> bool" where
  "is_display (DISPLAY p u) = True"
| "is_display ev = False"

definition focus_event :: "view \<Rightarrow> int \<Rightarrow> event" where
  "focus_event v viewIdx =
     (case ctx_pos v of None \<Rightarrow> MUTE
      | Some p \<Rightarrow> if viewIdx \<in> set (spaces p) then UNMUTE else MUTE)"

definition focus_cmds :: "view list \<Rightarrow> int \<Rightarrow> nat list \<Rightarrow> sent" where
  "focus_cmds views viewIdx idxs =
     map (\<lambda>i. (i, focus_event (views ! i) viewIdx)) (filter (\<lambda>i. matches_displaying (views ! i)) idxs)"

fun is_view_info :: "ipc \<Rightarrow> bool" where
  "is_view_info (View_info i) = True"
| "is_view_info m = False"

text \<open>The url that a \<open>DISPLAY\<close> event carries.\<close>

fun event_url :: "event \<Rightarrow> string option" where
  "event_url (DISPLAY p u) = Some u"
| "event_url ev = None"

text \<open>The views and the events sent when a call has ended, normally or by the TypeError.\<close>

fun views_after :: "error + (view list \<times> sent) \<Rightarrow> view list" where
  "views_after (Inr (views, log)) = views"
| "views_after (Inl (TypeError views log)) = views"

fun sent_by :: "error + (view list \<times> sent) \<Rightarrow> sent" where
  "sent_by (Inr (views, log)) = log"
| "sent_by (Inl (TypeError views log)) = log"

section \<open>Example walls\<close>

text \<open>
  A box of one cell at a cell index of the six by six grid, and the surface of every
  loading view reporting that its content is ready.
\<close>

definition box_at :: "string \<Rightarrow> int \<Rightarrow> box" where
  "box_at u cell =
     \<lparr>box_url = Some u, box_x = cell mod 6, box_y = cell div 6, box_w = 1, box_h = 1,
      box_spaces = [cell]\<rparr>"

definition content_ready :: "view list \<Rightarrow> view list" where
  "content_ready views = map (\<lambda>v. slot_event v (ContentReady ''title'')) views"

text \<open>
  A full wall: from the initial pool, a layout of ten one-cell regions with ten urls
  (\<open>a\<close>, \<open>aa\<close>, ...) is set and every view reports its content ready.
\<close>

definition ten_boxes :: "box list" where
  "ten_boxes = map (\<lambda>n. box_at (replicate (Suc n) CHR ''a'') (int n)) [0..<10]"

definition full_wall :: "view list" where
  "full_wall = content_ready (views_after (setViews spec_deps init_views ten_boxes))"

text \<open>
  A wall with one stream that has the listening focus: from the initial pool, url \<open>a\<close> is
  set at cell 0, its content gets ready, and cell 0 is given the focus.
\<close>

definition listening_wall :: "view list" where
  "listening_wall =
     views_after (setListeningView spec_deps
       (content_ready (views_after (setViews spec_deps init_views [box_at ''a'' 0]))) 0)"

text \<open>
  A wall where the view of index 1 displays \<open>a\<close> and the view of index 0 is idle: from the
  initial pool, \<open>b\<close> is set at cell 0 and \<open>a\<close> at cell 1, both get ready, and then the layout
  keeps \<open>a\<close> alone. The layout \<open>twin_layout\<close> then asks for \<open>a\<close> in two cells that do not
  touch, which are two regions with the same url.
\<close>

definition shifted_wall :: "view list" where
  "shifted_wall =
     views_after (setViews spec_deps
       (content_ready (views_after (setViews spec_deps init_views [box_at ''b'' 0, box_at ''a'' 1])))
       [box_at ''a'' 1])"

definition twin_layout :: "box list" where
  "twin_layout = [box_at ''a'' 0, box_at ''a'' 2]"

definition once_wall :: "view list" where
  "once_wall = views_after (setViews spec_deps shifted_wall twin_layout)"

definition twice_wall :: "view list" where
  "twice_wall = views_after (setViews spec_deps once_wall twin_layout)"

text \<open>A layout of two regions with two urls, and a page whose video starts to play.\<close>

definition distinct_layout :: "box list" where
  "distinct_layout = [box_at ''a'' 0, box_at ''c'' 2]"

definition video_page :: page where
  "video_page =
     \<lparr>view_init = Fulfilled Video, loaded = True, video_found = True, video_width = 0,
      play_event = True, title = ''stream''\<rparr>"

section \<open>Properties of the reconciliation pass\<close>

subsection \<open>Lemmas about the loops\<close>


lemma find_space_SomeD:
  "find_space views unusedViews u = Some s \<Longrightarrow> s \<in> set unusedViews \<and> s < length views"
  by (auto simp: find_space_def find_Some_iff split: option.splits)

lemma assign_boxes_Inr:
  "assign_boxes E boxes views unusedViews log = Inr (views', unusedViews', log') \<Longrightarrow>
   \<exists>dl. log' = log @ dl
      \<and> map snd dl = map (display_event E) (filter (\<lambda>b. \<not> falsy (box_url b)) boxes)
      \<and> distinct (map fst dl)
      \<and> fst ` set dl \<subseteq> set unusedViews
      \<and> (\<forall>s \<in> fst ` set dl. s < length views)
      \<and> unusedViews' = filter (\<lambda>s. s \<notin> fst ` set dl) unusedViews
      \<and> length views' = length views
      \<and> (\<forall>i. i \<notin> fst ` set dl \<longrightarrow> views' ! i = views ! i)
      \<and> (\<forall>(s, ev) \<in> set dl. views' ! s = send E (views ! s) ev)"
proof (induction boxes arbitrary: views unusedViews log)
  case Nil
  then show ?case by simp
next
  case (Cons b boxes)
  show ?case
  proof (cases "falsy (box_url b)")
    case True
    with Cons show ?thesis by simp
  next
    case False
    let ?u = "the (box_url b)"
    from Cons.prems False obtain s where fs: "find_space views unusedViews ?u = Some s"
      by (auto split: option.splits)
    let ?ev = "display_event E b"
    from Cons.prems False fs have rec:
      "assign_boxes E boxes (views[s := send E (views ! s) ?ev]) (removeAll s unusedViews)
         (log @ [(s, ?ev)]) = Inr (views', unusedViews', log')"
      by simp
    from Cons.IH[OF rec] obtain dl where dl:
      "log' = (log @ [(s, ?ev)]) @ dl"
      "map snd dl = map (display_event E) (filter (\<lambda>b. \<not> falsy (box_url b)) boxes)"
      "distinct (map fst dl)"
      "fst ` set dl \<subseteq> set (removeAll s unusedViews)"
      "\<forall>s' \<in> fst ` set dl. s' < length (views[s := send E (views ! s) ?ev])"
      "unusedViews' = filter (\<lambda>s'. s' \<notin> fst ` set dl) (removeAll s unusedViews)"
      "length views' = length (views[s := send E (views ! s) ?ev])"
      "\<forall>i. i \<notin> fst ` set dl \<longrightarrow> views' ! i = (views[s := send E (views ! s) ?ev]) ! i"
      "\<forall>(s', ev) \<in> set dl. views' ! s' = send E ((views[s := send E (views ! s) ?ev]) ! s') ev"
      by blast
    from find_space_SomeD[OF fs] have s: "s \<in> set unusedViews" "s < length views" by auto
    from dl(4) have snot: "s \<notin> fst ` set dl" by auto
    let ?dl = "(s, ?ev) # dl"
    have 1: "log' = log @ ?dl" using dl(1) by simp
    have 2: "map snd ?dl = map (display_event E) (filter (\<lambda>b. \<not> falsy (box_url b)) (b # boxes))"
      using dl(2) False by simp
    have 3: "distinct (map fst ?dl)" using dl(3) snot by simp
    have 4: "fst ` set ?dl \<subseteq> set unusedViews" using dl(4) s by auto
    have 5: "\<forall>s' \<in> fst ` set ?dl. s' < length views" using dl(5) s by auto
    have 6: "unusedViews' = filter (\<lambda>s'. s' \<notin> fst ` set ?dl) unusedViews"
      using dl(6) by (simp add: removeAll_filter_not_eq conj_commute eq_commute)
    have 7: "length views' = length views" using dl(7) by simp
    have 8: "\<forall>i. i \<notin> fst ` set ?dl \<longrightarrow> views' ! i = views ! i"
      using dl(8) by auto
    have 9: "\<forall>(s', ev) \<in> set ?dl. views' ! s' = send E (views ! s') ev"
    proof -
      have "views' ! s = send E (views ! s) ?ev" using dl(8) snot s by simp
      moreover have "\<forall>(s', ev) \<in> set dl. views' ! s' = send E (views ! s') ev"
      proof (clarify)
        fix s' ev assume m: "(s', ev) \<in> set dl"
        then have "s' \<in> fst ` set dl" by force
        with snot have "s' \<noteq> s" by auto
        moreover from dl(9) m
        have "views' ! s' = send E ((views[s := send E (views ! s) ?ev]) ! s') ev" by auto
        ultimately show "views' ! s' = send E (views ! s') ev" by simp
      qed
      ultimately show ?thesis by simp
    qed
    from 1 2 3 4 5 6 7 8 9 show ?thesis by blast
  qed
qed

lemma snd_issue: "snd (issue E cmds views log) = log @ cmds"
  by (induction cmds arbitrary: views log) auto

lemma length_issue: "length (fst (issue E cmds views log)) = length views"
  by (induction cmds arbitrary: views log) auto

lemma issue_nth_other:
  "i \<notin> fst ` set cmds \<Longrightarrow> fst (issue E cmds views log) ! i = views ! i"
  by (induction cmds arbitrary: views log) auto

lemma issue_nth_sent:
  "distinct (map fst cmds) \<Longrightarrow> (s, ev) \<in> set cmds \<Longrightarrow> s < length views \<Longrightarrow>
   fst (issue E cmds views log) ! s = send E (views ! s) ev"
proof (induction cmds arbitrary: views log)
  case Nil
  then show ?case by simp
next
  case (Cons c cmds)
  obtain s' ev' where c: "c = (s', ev')" by (cases c)
  show ?case
  proof (cases "(s, ev) = c")
    case True
    with Cons.prems c have "s \<notin> fst ` set cmds" by auto
    with True c Cons.prems show ?thesis by (simp add: issue_nth_other)
  next
    case False
    with Cons.prems c have m: "(s, ev) \<in> set cmds" by auto
    with Cons.prems c have "s \<noteq> s'" by force
    with Cons.IH[of "views[s' := send E (views ! s') ev']" "log @ [(s', ev')]"] m Cons.prems c
    show ?thesis by simp
  qed
qed

lemma clear_unused_issue:
  "clear_unused E unusedViews views log = issue E (map (\<lambda>s. (s, CLEAR)) unusedViews) views log"
  by (induction unusedViews arbitrary: views log) auto

lemma find_space_cong:
  assumes "length vs = length snapshot" "\<forall>s \<in> set unusedViews. vs ! s = snapshot ! s"
  shows "find_space vs unusedViews u = find_space snapshot unusedViews u"
proof -
  have a: "List.find (\<lambda>s. s \<in> set unusedViews \<and> ctx_url (vs ! s) = Some u) [0..<length vs]
     = List.find (\<lambda>s. s \<in> set unusedViews \<and> ctx_url (snapshot ! s) = Some u) [0..<length snapshot]"
    using assms by (intro find_cong) auto
  have b: "List.find (\<lambda>s. s \<in> set unusedViews \<and> \<not> matches_displaying (vs ! s)) [0..<length vs]
     = List.find (\<lambda>s. s \<in> set unusedViews \<and> \<not> matches_displaying (snapshot ! s)) [0..<length snapshot]"
    using assms by (intro find_cong) auto
  show ?thesis unfolding find_space_def a b ..
qed

lemma assign_boxes_plan:
  assumes "length vs = length snapshot" "\<forall>s \<in> set unusedViews. vs ! s = snapshot ! s"
  shows "assign_boxes E boxes vs unusedViews log =
    (case plan_boxes E snapshot boxes unusedViews of
       (cmds, unusedViews', ok) \<Rightarrow>
         (case issue E cmds vs log of
            (vs', log') \<Rightarrow>
              if ok then Inr (vs', unusedViews', log') else Inl (TypeError vs' log')))"
  using assms
proof (induction boxes arbitrary: vs unusedViews log)
  case Nil
  then show ?case by simp
next
  case (Cons b boxes)
  show ?case
  proof (cases "falsy (box_url b)")
    case True
    with Cons show ?thesis by simp
  next
    case False
    note fs = find_space_cong[OF Cons.prems, of "the (box_url b)"]
    show ?thesis
    proof (cases "find_space snapshot unusedViews (the (box_url b))")
      case None
      with False fs show ?thesis by simp
    next
      case (Some s)
      let ?vs = "vs[s := send E (vs ! s) (display_event E b)]"
      have 1: "length ?vs = length snapshot" using Cons.prems by simp
      have 2: "\<forall>s' \<in> set (removeAll s unusedViews). ?vs ! s' = snapshot ! s'"
        using Cons.prems by auto
      show ?thesis using False fs Some Cons.IH[OF 1 2]
        by (simp split: prod.splits)
    qed
  qed
qed

lemma setViews_Inr:
  assumes "setViews E views boxes = Inr (views', log)"
  shows "\<exists>dl. log = dl @ map (\<lambda>s. (s, CLEAR)) (filter (\<lambda>s. s \<notin> fst ` set dl) [0..<length views])
      \<and> map snd dl = map (display_event E) (filter (\<lambda>b. \<not> falsy (box_url b)) boxes)
      \<and> distinct (map fst dl)
      \<and> (\<forall>s \<in> fst ` set dl. s < length views)
      \<and> length views' = length views
      \<and> (\<forall>(s, ev) \<in> set dl. views' ! s = send E (views ! s) ev)
      \<and> (\<forall>s < length views. s \<notin> fst ` set dl \<longrightarrow> views' ! s = send E (views ! s) CLEAR)"
proof -
  from assms obtain va ua la where
    a: "assign_boxes E boxes views [0..<length views] [] = Inr (va, ua, la)"
    and c: "clear_unused E ua va la = (views', log)"
    by (auto simp: setViews_def split: sum.splits)
  from assign_boxes_Inr[OF a] obtain dl where dl:
    "la = dl"
    "map snd dl = map (display_event E) (filter (\<lambda>b. \<not> falsy (box_url b)) boxes)"
    "distinct (map fst dl)"
    "\<forall>s \<in> fst ` set dl. s < length views"
    "ua = filter (\<lambda>s. s \<notin> fst ` set dl) [0..<length views]"
    "length va = length views"
    "\<forall>i. i \<notin> fst ` set dl \<longrightarrow> va ! i = views ! i"
    "\<forall>(s, ev) \<in> set dl. va ! s = send E (views ! s) ev"
    by auto
  let ?cl = "map (\<lambda>s. (s, CLEAR)) ua"
  from c have i: "issue E ?cl va la = (views', log)" by (simp add: clear_unused_issue)
  have 1: "log = dl @ ?cl" using snd_issue[of E ?cl va la] i dl(1) by simp
  have 2: "length views' = length views" using length_issue[of E ?cl va la] i dl(6) by simp
  have fcl: "fst ` set ?cl = set ua" by force
  have 3: "\<forall>(s, ev) \<in> set dl. views' ! s = send E (views ! s) ev"
  proof (clarify)
    fix s ev assume m: "(s, ev) \<in> set dl"
    then have "s \<in> fst ` set dl" by force
    then have "s \<notin> set ua" using dl(5) by simp
    then have "s \<notin> fst ` set ?cl" using fcl by simp
    from issue_nth_other[OF this, of E va la] i have "views' ! s = va ! s" by simp
    with dl(8) m show "views' ! s = send E (views ! s) ev" by auto
  qed
  have 4: "\<forall>s < length views. s \<notin> fst ` set dl \<longrightarrow> views' ! s = send E (views ! s) CLEAR"
  proof (clarify)
    fix s assume s: "s < length views" "s \<notin> fst ` set dl"
    then have "(s, CLEAR) \<in> set ?cl" unfolding dl(5) by simp
    moreover have "distinct (map fst ?cl)" unfolding dl(5) by (simp add: comp_def)
    ultimately have "fst (issue E ?cl va la) ! s = send E (va ! s) CLEAR"
      using s dl(6) by (intro issue_nth_sent) auto
    with i s dl(7) show "views' ! s = send E (views ! s) CLEAR" by simp
  qed
  from 1 dl(2,3,4,5) 2 3 4 show ?thesis by blast
qed

lemma assign_boxes_append:
  "assign_boxes E (pre @ rest) views unusedViews log =
     (case assign_boxes E pre views unusedViews log of
        Inl e \<Rightarrow> Inl e
      | Inr (views', unusedViews', log') \<Rightarrow> assign_boxes E rest views' unusedViews' log')"
  by (induction pre arbitrary: views unusedViews log) (simp_all split: option.splits)

lemma find_holds: "List.find P xs = Some x \<Longrightarrow> P x \<and> x \<in> set xs"
  by (induction xs) (auto split: if_splits)

lemma find_space_same_url:
  assumes "s \<in> set unusedViews" "s < length views" "ctx_url (views ! s) = Some u"
  shows "\<exists>s'. find_space views unusedViews u = Some s' \<and> s' \<in> set unusedViews
            \<and> ctx_url (views ! s') = Some u"
proof (cases "List.find (\<lambda>s. s \<in> set unusedViews \<and> ctx_url (views ! s) = Some u) [0..<length views]")
  case None
  with assms show ?thesis by (auto simp: find_None_iff)
next
  case (Some s')
  then have "find_space views unusedViews u = Some s'" by (simp add: find_space_def)
  moreover from find_holds[OF Some] have "s' \<in> set unusedViews \<and> ctx_url (views ! s') = Some u"
    by simp
  ultimately show ?thesis by blast
qed

lemma find_space_other_url:
  assumes "\<forall>s \<in> set unusedViews. ctx_url (views ! s) \<noteq> Some u"
  shows "find_space views unusedViews u =
           List.find (\<lambda>s. s \<in> set unusedViews \<and> \<not> matches_displaying (views ! s)) [0..<length views]"
proof -
  have "List.find (\<lambda>s. s \<in> set unusedViews \<and> ctx_url (views ! s) = Some u) [0..<length views] = None"
    using assms by (auto simp: find_None_iff)
  then show ?thesis by (simp add: find_space_def)
qed

lemma focus_cmds_update:
  "i \<notin> set idxs \<Longrightarrow> focus_cmds (views[i := v]) c idxs = focus_cmds views c idxs"
  by (induction idxs) (auto simp: focus_cmds_def)

lemma listen_views_issue:
  assumes "distinct idxs"
    and "\<forall>i \<in> set idxs. matches_displaying (views ! i) \<longrightarrow> ctx_pos (views ! i) \<noteq> None"
  shows "listen_views E c idxs views log = Inr (issue E (focus_cmds views c idxs) views log)"
  using assms
proof (induction idxs arbitrary: views log)
  case Nil
  then show ?case by (simp add: focus_cmds_def)
next
  case (Cons i idxs)
  show ?case
  proof (cases "matches_displaying (views ! i)")
    case False
    have "focus_cmds views c (i # idxs) = focus_cmds views c idxs"
      using False by (simp add: focus_cmds_def)
    with False Cons show ?thesis by simp
  next
    case True
    with Cons.prems obtain p where p: "ctx_pos (views ! i) = Some p" by auto
    let ?ev = "if c \<in> set (spaces p) then UNMUTE else MUTE"
    let ?vs = "views[i := send E (views ! i) ?ev]"
    have d: "distinct idxs" and ni: "i \<notin> set idxs" using Cons.prems by auto
    have h: "\<forall>j \<in> set idxs. matches_displaying (?vs ! j) \<longrightarrow> ctx_pos (?vs ! j) \<noteq> None"
    proof
      fix j assume j: "j \<in> set idxs"
      with ni have "j \<noteq> i" by auto
      then have "?vs ! j = views ! j" by simp
      with Cons.prems j show "matches_displaying (?vs ! j) \<longrightarrow> ctx_pos (?vs ! j) \<noteq> None"
        by simp
    qed
    have fc: "focus_cmds views c (i # idxs) = (i, ?ev) # focus_cmds ?vs c idxs"
      using True p focus_cmds_update[OF ni] by (simp add: focus_cmds_def focus_event_def)
    show ?thesis using True p Cons.IH[OF d h] fc by simp
  qed
qed

lemma find_unique:
  "x \<in> set xs \<Longrightarrow> P x \<Longrightarrow> \<forall>y \<in> set xs. P y \<longrightarrow> y = x \<Longrightarrow> List.find P xs = Some x"
proof (induction xs)
  case Nil
  then show ?case by simp
next
  case (Cons a xs)
  show ?case
  proof (cases "P a")
    case True
    with Cons.prems(3) have "a = x" by simp
    with True show ?thesis by simp
  next
    case False
    with Cons.prems(1,2) have 1: "x \<in> set xs" by auto
    from Cons.prems(3) have 3: "\<forall>y \<in> set xs. P y \<longrightarrow> y = x" by simp
    from Cons.IH[OF 1 Cons.prems(2) 3] False show ?thesis by simp
  qed
qed

lemma issue_noop:
  "\<forall>s ev. (s, ev) \<in> set cmds \<longrightarrow> send E (vs ! s) ev = vs ! s \<Longrightarrow> issue E cmds vs log = (vs, log @ cmds)"
proof (induction cmds arbitrary: log)
  case Nil
  then show ?case by simp
next
  case (Cons c cmds)
  obtain s ev where c: "c = (s, ev)" by (cases c)
  with Cons.prems have "send E (vs ! s) ev = vs ! s" by simp
  then have upd: "vs[s := send E (vs ! s) ev] = vs" by simp
  from Cons.prems have "\<forall>s ev. (s, ev) \<in> set cmds \<longrightarrow> send E (vs ! s) ev = vs ! s" by simp
  from Cons.IH[OF this, of "log @ [(s, ev)]"]
  have "issue E cmds vs (log @ [(s, ev)]) = (vs, log @ (s, ev) # cmds)" by simp
  then show ?case unfolding c issue.simps upd .
qed

lemma assign_boxes_again:
  assumes "map snd dl = map (display_event E) (filter (\<lambda>b. \<not> falsy (box_url b)) boxes)"
    and "distinct (map fst dl)"
    and "distinct (map box_url (filter (\<lambda>b. \<not> falsy (box_url b)) boxes))"
    and "\<forall>s ev. (s, ev) \<in> set dl \<longrightarrow> s \<in> set unusedViews \<and> s < length vs
           \<and> send E (vs ! s) ev = vs ! s \<and> (\<exists>p u. ev = DISPLAY p u \<and> ctx_url (vs ! s) = Some u)"
    and "\<forall>s \<in> set unusedViews. s \<notin> fst ` set dl \<longrightarrow> ctx_url (vs ! s) = None"
  shows "assign_boxes E boxes vs unusedViews log =
           Inr (vs, filter (\<lambda>s. s \<notin> fst ` set dl) unusedViews, log @ dl)"
  using assms
proof (induction boxes arbitrary: dl unusedViews log)
  case Nil
  then show ?case by simp
next
  case (Cons b boxes)
  show ?case
  proof (cases "falsy (box_url b)")
    case True
    with Cons.prems have "assign_boxes E boxes vs unusedViews log =
           Inr (vs, filter (\<lambda>s. s \<notin> fst ` set dl) unusedViews, log @ dl)"
      by (intro Cons.IH) auto
    with True show ?thesis by simp
  next
    case False
    then obtain u where u: "box_url b = Some u" by (cases "box_url b") (auto simp: falsy_def)
    let ?ev = "display_event E b"
    from Cons.prems(1) False obtain c dl' where dl: "dl = (c, ?ev) # dl'"
      and dl': "map snd dl' = map (display_event E) (filter (\<lambda>b. \<not> falsy (box_url b)) boxes)"
      by (cases dl) auto
    have ev: "?ev = DISPLAY (box_pos E b) u" using u by (simp add: display_event_def)
    from Cons.prems(4) dl ev have c: "c \<in> set unusedViews" "c < length vs"
      "send E (vs ! c) ?ev = vs ! c" "ctx_url (vs ! c) = Some u" by auto
    from Cons.prems(2) dl have cn: "c \<notin> fst ` set dl'" and d': "distinct (map fst dl')" by auto
    from Cons.prems(3) False have un: "box_url b \<notin> box_url ` {b \<in> set boxes. \<not> falsy (box_url b)}"
      and db: "distinct (map box_url (filter (\<lambda>b. \<not> falsy (box_url b)) boxes))" by auto
    have uniq: "\<forall>s \<in> set [0..<length vs].
        (s \<in> set unusedViews \<and> ctx_url (vs ! s) = Some u) \<longrightarrow> s = c"
    proof (clarify)
      fix s assume s: "s \<in> set unusedViews" "ctx_url (vs ! s) = Some u"
      show "s = c"
      proof (rule ccontr)
        assume "s \<noteq> c"
        with s Cons.prems(5) dl have "s \<in> fst ` set dl'" by auto
        then obtain ev' where m: "(s, ev') \<in> set dl'" by auto
        with Cons.prems(4) dl have "\<exists>p u'. ev' = DISPLAY p u' \<and> ctx_url (vs ! s) = Some u'" by auto
        with s have "\<exists>p. ev' = DISPLAY p u" by auto
        moreover from m have "ev' \<in> set (map snd dl')" by force
        then have "\<exists>b'. b' \<in> set boxes \<and> \<not> falsy (box_url b') \<and> ev' = display_event E b'"
          unfolding dl' by auto
        ultimately obtain p b' where b': "ev' = DISPLAY p u" "b' \<in> set boxes"
          "\<not> falsy (box_url b')" "ev' = display_event E b'" by blast
        from b'(1) b'(4) have "the (box_url b') = u" by (auto simp: display_event_def)
        with b'(3) have "box_url b' = Some u" by (cases "box_url b'") (simp_all add: falsy_def)
        with b'(2,3) have "box_url b \<in> box_url ` {b \<in> set boxes. \<not> falsy (box_url b)}"
          unfolding u by (intro image_eqI[where x=b']) simp_all
        with un show False by simp
      qed
    qed
    have "List.find (\<lambda>s. s \<in> set unusedViews \<and> ctx_url (vs ! s) = Some u) [0..<length vs] = Some c"
    proof (rule find_unique)
      show "c \<in> set [0..<length vs]" using c(2) by simp
      show "c \<in> set unusedViews \<and> ctx_url (vs ! c) = Some u" using c by simp
      show "\<forall>y\<in>set [0..<length vs]. y \<in> set unusedViews \<and> ctx_url (vs ! y) = Some u \<longrightarrow> y = c"
        by (rule uniq)
    qed
    then have fs: "find_space vs unusedViews u = Some c" by (simp add: find_space_def)
    have upd: "vs[c := send E (vs ! c) ?ev] = vs" using c by simp
    have 4: "\<forall>s ev. (s, ev) \<in> set dl' \<longrightarrow> s \<in> set (removeAll c unusedViews) \<and> s < length vs
           \<and> send E (vs ! s) ev = vs ! s \<and> (\<exists>p u. ev = DISPLAY p u \<and> ctx_url (vs ! s) = Some u)"
    proof (intro allI impI)
      fix s ev assume m: "(s, ev) \<in> set dl'"
      then have "s \<in> fst ` set dl'" by force
      with cn have sc: "s \<noteq> c" by auto
      from m dl have "(s, ev) \<in> set dl" by simp
      with Cons.prems(4) have "s \<in> set unusedViews \<and> s < length vs
           \<and> send E (vs ! s) ev = vs ! s \<and> (\<exists>p u. ev = DISPLAY p u \<and> ctx_url (vs ! s) = Some u)"
        by blast
      with sc show "s \<in> set (removeAll c unusedViews) \<and> s < length vs
           \<and> send E (vs ! s) ev = vs ! s \<and> (\<exists>p u. ev = DISPLAY p u \<and> ctx_url (vs ! s) = Some u)"
        by simp
    qed
    have 5: "\<forall>s \<in> set (removeAll c unusedViews). s \<notin> fst ` set dl' \<longrightarrow> ctx_url (vs ! s) = None"
      using Cons.prems(5) dl by auto
    have feq: "filter (\<lambda>s. s \<notin> fst ` set dl') (removeAll c unusedViews) =
        filter (\<lambda>s. s \<notin> fst ` set dl) unusedViews"
      unfolding dl by (simp add: removeAll_filter_not_eq conj_commute eq_commute)
    have leq: "(log @ [(c, ?ev)]) @ dl' = log @ dl" unfolding dl by simp
    have "assign_boxes E (b # boxes) vs unusedViews log =
        assign_boxes E boxes (vs[c := send E (vs ! c) ?ev]) (removeAll c unusedViews) (log @ [(c, ?ev)])"
      using False u fs by simp
    also have "\<dots> = assign_boxes E boxes vs (removeAll c unusedViews) (log @ [(c, ?ev)])"
      unfolding upd ..
    also have "\<dots> =
           Inr (vs, filter (\<lambda>s. s \<notin> fst ` set dl') (removeAll c unusedViews), (log @ [(c, ?ev)]) @ dl')"
      using dl' d' db 4 5 by (rule Cons.IH)
    finally show ?thesis unfolding feq leq .
  qed
qed

lemma slot_send_display_twice:
  "slot_send (slot_send v (DISPLAY p u)) (DISPLAY p u) = slot_send v (DISPLAY p u)"
  by (cases "lifecycle v") auto

lemma slot_send_display_url: "ctx_url (slot_send v (DISPLAY p u)) = Some u"
  by (cases "lifecycle v") auto

lemma slot_send_clear_twice: "slot_send (slot_send v CLEAR) CLEAR = slot_send v CLEAR"
  by simp

lemma slot_send_clear_url: "ctx_url (slot_send v CLEAR) = None"
  by simp

lemma twin_pass_once:
  "setViews spec_deps shifted_wall twin_layout =
     Inr (once_wall, sent_by (setViews spec_deps shifted_wall twin_layout))"
  by code_simp

lemma distinct_pass_once:
  "setViews spec_deps shifted_wall distinct_layout =
     Inr (views_after (setViews spec_deps shifted_wall distinct_layout),
          sent_by (setViews spec_deps shifted_wall distinct_layout))"
  by code_simp

lemma length_filter_removeAll:
  "distinct xs \<Longrightarrow> c \<in> set xs \<Longrightarrow>
   length (filter P (removeAll c xs)) = length (filter P xs) - (if P c then 1 else 0)"
proof (induction xs)
  case Nil
  then show ?case by simp
next
  case (Cons a xs)
  show ?case
  proof (cases "a = c")
    case True
    with Cons.prems have "c \<notin> set xs" by simp
    then have "removeAll c xs = xs" by simp
    with True show ?thesis by simp
  next
    case False
    with Cons.prems have c: "c \<in> set xs" and d: "distinct xs" by auto
    from Cons.IH[OF d c] have ih: "length (filter P (removeAll c xs)) =
        length (filter P xs) - (if P c then 1 else 0)" .
    have pos: "P c \<Longrightarrow> 0 < length (filter P xs)"
      using c by (simp add: length_greater_0_conv filter_empty_conv) blast
    show ?thesis using False ih pos by (cases "P c"; cases "P a") simp_all
  qed
qed

lemma plan_boxes_again:
  assumes "\<forall>u. length (filter (\<lambda>s. ctx_url (vs ! s) = Some u) unusedViews) =
               length (filter (\<lambda>b. \<not> falsy (box_url b) \<and> box_url b = Some u) boxes)"
    and "distinct unusedViews"
    and "\<forall>s \<in> set unusedViews. s < length vs"
  shows "\<exists>cmds unusedViews'. plan_boxes E vs boxes unusedViews = (cmds, unusedViews', True)
      \<and> distinct (map fst cmds)
      \<and> (\<forall>s ev. (s, ev) \<in> set cmds \<longrightarrow> s \<in> set unusedViews \<and>
            (\<exists>p u. ev = DISPLAY p u \<and> ctx_url (vs ! s) = Some u))
      \<and> unusedViews' = filter (\<lambda>s. s \<notin> fst ` set cmds) unusedViews
      \<and> (\<forall>s \<in> set unusedViews'. ctx_url (vs ! s) = None)"
  using assms
proof (induction boxes arbitrary: unusedViews)
  case Nil
  have "\<forall>s \<in> set unusedViews. ctx_url (vs ! s) = None"
  proof
    fix s assume s: "s \<in> set unusedViews"
    show "ctx_url (vs ! s) = None"
    proof (cases "ctx_url (vs ! s)")
      case None
      then show ?thesis .
    next
      case (Some u)
      from Nil.prems(1) have "length (filter (\<lambda>s. ctx_url (vs ! s) = Some u) unusedViews) = 0"
        by simp
      then have "filter (\<lambda>s. ctx_url (vs ! s) = Some u) unusedViews = []" by simp
      with s Some show ?thesis by (simp add: filter_empty_conv)
    qed
  qed
  then show ?case by simp
next
  case (Cons b boxes)
  show ?case
  proof (cases "falsy (box_url b)")
    case True
    with Cons.prems(1) have cnt: "\<forall>u. length (filter (\<lambda>s. ctx_url (vs ! s) = Some u) unusedViews) =
               length (filter (\<lambda>b. \<not> falsy (box_url b) \<and> box_url b = Some u) boxes)" by simp
    from Cons.IH[OF cnt Cons.prems(2,3)] True show ?thesis by simp
  next
    case False
    then obtain u0 where u0: "box_url b = Some u0" by (cases "box_url b") (auto simp: falsy_def)
    from Cons.prems(1) have "length (filter (\<lambda>s. ctx_url (vs ! s) = Some u0) unusedViews) =
        length (filter (\<lambda>b. \<not> falsy (box_url b) \<and> box_url b = Some u0) (b # boxes))" by blast
    with False u0 have "0 < length (filter (\<lambda>s. ctx_url (vs ! s) = Some u0) unusedViews)" by simp
    then have "filter (\<lambda>s. ctx_url (vs ! s) = Some u0) unusedViews \<noteq> []" by simp
    then obtain s where "s \<in> set unusedViews" "ctx_url (vs ! s) = Some u0"
      by (auto simp: filter_empty_conv)
    with Cons.prems(3) find_space_same_url[of s unusedViews vs u0]
    obtain c where c: "find_space vs unusedViews u0 = Some c" "c \<in> set unusedViews"
      "ctx_url (vs ! c) = Some u0" by blast
    let ?un = "removeAll c unusedViews"
    have cnt: "\<forall>u. length (filter (\<lambda>s. ctx_url (vs ! s) = Some u) ?un) =
               length (filter (\<lambda>b. \<not> falsy (box_url b) \<and> box_url b = Some u) boxes)"
    proof
      fix u
      have "length (filter (\<lambda>s. ctx_url (vs ! s) = Some u) ?un) =
          length (filter (\<lambda>s. ctx_url (vs ! s) = Some u) unusedViews) - (if u0 = u then 1 else 0)"
        using length_filter_removeAll[OF Cons.prems(2) c(2), of "\<lambda>s. ctx_url (vs ! s) = Some u"] c(3)
        by simp
      also have "length (filter (\<lambda>s. ctx_url (vs ! s) = Some u) unusedViews) =
          length (filter (\<lambda>b. \<not> falsy (box_url b) \<and> box_url b = Some u) (b # boxes))"
        using Cons.prems(1) by blast
      also have "\<dots> - (if u0 = u then 1 else 0) =
          length (filter (\<lambda>b. \<not> falsy (box_url b) \<and> box_url b = Some u) boxes)"
        using False u0 by simp
      finally show "length (filter (\<lambda>s. ctx_url (vs ! s) = Some u) ?un) =
               length (filter (\<lambda>b. \<not> falsy (box_url b) \<and> box_url b = Some u) boxes)" .
    qed
    have d: "distinct ?un" using Cons.prems(2) by (simp add: distinct_removeAll)
    have r: "\<forall>s \<in> set ?un. s < length vs" using Cons.prems(3) by simp
    from Cons.IH[OF cnt d r] obtain cmds' un' where ih:
      "plan_boxes E vs boxes ?un = (cmds', un', True)"
      "distinct (map fst cmds')"
      "\<forall>s ev. (s, ev) \<in> set cmds' \<longrightarrow> s \<in> set ?un \<and>
            (\<exists>p u. ev = DISPLAY p u \<and> ctx_url (vs ! s) = Some u)"
      "un' = filter (\<lambda>s. s \<notin> fst ` set cmds') ?un"
      "\<forall>s \<in> set un'. ctx_url (vs ! s) = None"
      by blast
    let ?ev = "display_event E b"
    let ?cmds = "(c, ?ev) # cmds'"
    have ev: "?ev = DISPLAY (box_pos E b) u0" using u0 by (simp add: display_event_def)
    have 1: "plan_boxes E vs (b # boxes) unusedViews = (?cmds, un', True)"
      using False u0 c(1) ih(1) by simp
    have cn: "c \<notin> fst ` set cmds'"
    proof
      assume "c \<in> fst ` set cmds'"
      then obtain e where "(c, e) \<in> set cmds'" by auto
      with ih(3) have "c \<in> set ?un" by blast
      then show False by simp
    qed
    have 2: "distinct (map fst ?cmds)" using ih(2) cn by simp
    have 3: "\<forall>s ev. (s, ev) \<in> set ?cmds \<longrightarrow> s \<in> set unusedViews \<and>
            (\<exists>p u. ev = DISPLAY p u \<and> ctx_url (vs ! s) = Some u)"
    proof (intro allI impI)
      fix s e assume "(s, e) \<in> set ?cmds"
      then consider "s = c" "e = ?ev" | "(s, e) \<in> set cmds'" by auto
      then show "s \<in> set unusedViews \<and> (\<exists>p u. e = DISPLAY p u \<and> ctx_url (vs ! s) = Some u)"
      proof cases
        case 1
        with c ev show ?thesis by simp
      next
        case 2
        with ih(3) have "s \<in> set ?un \<and> (\<exists>p u. e = DISPLAY p u \<and> ctx_url (vs ! s) = Some u)"
          by blast
        then show ?thesis by simp
      qed
    qed
    have 4: "un' = filter (\<lambda>s. s \<notin> fst ` set ?cmds) unusedViews"
      unfolding ih(4) by (simp add: removeAll_filter_not_eq conj_commute eq_commute)
    from 1 2 3 4 ih(5) show ?thesis by blast
  qed
qed

lemma second_pass_fixed_point:
  assumes "send E = slot_send"
    and "distinct (map box_url (filter (\<lambda>b. \<not> falsy (box_url b)) boxes))"
    and "setViews E views boxes = Inr (views1, log1)"
  shows "setViews E views1 boxes = Inr (views1, log1)"
proof -
  from setViews_Inr[OF assms(3)] obtain dl where dl:
    "log1 = dl @ map (\<lambda>s. (s, CLEAR)) (filter (\<lambda>s. s \<notin> fst ` set dl) [0..<length views])"
    "map snd dl = map (display_event E) (filter (\<lambda>b. \<not> falsy (box_url b)) boxes)"
    "distinct (map fst dl)"
    "\<forall>s \<in> fst ` set dl. s < length views"
    "length views1 = length views"
    "\<forall>(s, ev) \<in> set dl. views1 ! s = send E (views ! s) ev"
    "\<forall>s < length views. s \<notin> fst ` set dl \<longrightarrow> views1 ! s = send E (views ! s) CLEAR"
    by blast
  have disp: "\<forall>(s, ev) \<in> set dl. \<exists>p u. ev = DISPLAY p u"
  proof (clarify)
    fix s ev assume "(s, ev) \<in> set dl"
    then have "ev \<in> set (map snd dl)" by force
    then show "\<exists>p u. ev = DISPLAY p u" unfolding dl(2) by (auto simp: display_event_def)
  qed
  have 4: "\<forall>s ev. (s, ev) \<in> set dl \<longrightarrow> s \<in> set [0..<length views1] \<and> s < length views1
        \<and> send E (views1 ! s) ev = views1 ! s
        \<and> (\<exists>p u. ev = DISPLAY p u \<and> ctx_url (views1 ! s) = Some u)"
  proof (intro allI impI)
    fix s ev assume m: "(s, ev) \<in> set dl"
    then have "s \<in> fst ` set dl" by force
    with dl(4,5) have r: "s < length views1" by auto
    from disp m obtain p u where ev: "ev = DISPLAY p u" by auto
    from dl(6) m have "views1 ! s = slot_send (views ! s) ev" using assms(1) by auto
    with ev r assms(1) show "s \<in> set [0..<length views1] \<and> s < length views1
        \<and> send E (views1 ! s) ev = views1 ! s
        \<and> (\<exists>p u. ev = DISPLAY p u \<and> ctx_url (views1 ! s) = Some u)"
      by (simp del: slot_send.simps add: slot_send_display_twice slot_send_display_url)
  qed
  have 5: "\<forall>s \<in> set [0..<length views1]. s \<notin> fst ` set dl \<longrightarrow> ctx_url (views1 ! s) = None"
    using dl(5,7) assms(1) by (simp del: slot_send.simps add: slot_send_clear_url)
  have a: "assign_boxes E boxes views1 [0..<length views1] [] =
      Inr (views1, filter (\<lambda>s. s \<notin> fst ` set dl) [0..<length views1], [] @ dl)"
    using dl(2,3) assms(2) 4 5 by (rule assign_boxes_again)
  let ?cl = "map (\<lambda>s. (s, CLEAR)) (filter (\<lambda>s. s \<notin> fst ` set dl) [0..<length views1])"
  have "\<forall>s ev. (s, ev) \<in> set ?cl \<longrightarrow> send E (views1 ! s) ev = views1 ! s"
  proof (intro allI impI)
    fix s ev assume "(s, ev) \<in> set ?cl"
    then have "ev = CLEAR" "s < length views" "s \<notin> fst ` set dl" using dl(5) by auto
    with dl(7) assms(1) show "send E (views1 ! s) ev = views1 ! s"
      by (simp del: slot_send.simps add: slot_send_clear_twice)
  qed
  from issue_noop[OF this, of dl]
  have c: "clear_unused E (filter (\<lambda>s. s \<notin> fst ` set dl) [0..<length views1]) views1 dl =
      (views1, dl @ ?cl)" by (simp only: clear_unused_issue)
  have "log1 = dl @ ?cl" unfolding dl(1) dl(5) ..
  with a c show ?thesis by (simp add: setViews_def)
qed

lemma count_claimed:
  assumes "distinct (map fst dl)"
    and "\<forall>s ev. (s, ev) \<in> set dl \<longrightarrow> s < n \<and> f s = event_url ev"
    and "\<forall>s < n. s \<notin> fst ` set dl \<longrightarrow> f s = None"
  shows "length (filter (\<lambda>s. f s = Some u) [0..<n]) =
         length (filter (\<lambda>ev. event_url ev = Some u) (map snd dl))"
proof -
  let ?S = "{x \<in> set dl. event_url (snd x) = Some u}"
  from assms(1) have d: "distinct dl" and inj: "inj_on fst (set dl)"
    by (simp_all add: distinct_map)
  have "length (filter (\<lambda>s. f s = Some u) [0..<n]) = card {s. s < n \<and> f s = Some u}"
  proof -
    have "{s. f s = Some u} \<inter> set [0..<n] = {s. s < n \<and> f s = Some u}" by auto
    then show ?thesis by (simp add: distinct_length_filter)
  qed
  also have "{s. s < n \<and> f s = Some u} = fst ` ?S"
  proof (intro set_eqI iffI)
    fix s assume "s \<in> {s. s < n \<and> f s = Some u}"
    then have s: "s < n" "f s = Some u" by auto
    with assms(3) have "s \<in> fst ` set dl" by force
    then obtain ev where m: "(s, ev) \<in> set dl" by auto
    with assms(2) s have "event_url ev = Some u" by force
    with m have "(s, ev) \<in> ?S" by simp
    then show "s \<in> fst ` ?S" by force
  next
    fix s assume "s \<in> fst ` ?S"
    then obtain ev where m: "(s, ev) \<in> set dl" "event_url ev = Some u" by auto
    with assms(2) have "s < n \<and> f s = event_url ev" by blast
    with m show "s \<in> {s. s < n \<and> f s = Some u}" by simp
  qed
  also have "card (fst ` ?S) = card ?S"
    by (rule card_image) (rule inj_on_subset[OF inj], auto)
  also have "card ?S = length (filter (\<lambda>x. event_url (snd x) = Some u) dl)"
  proof -
    have "{x. event_url (snd x) = Some u} \<inter> set dl = ?S" by auto
    with d show ?thesis by (simp add: distinct_length_filter)
  qed
  also have "\<dots> = length (filter (\<lambda>ev. event_url ev = Some u) (map snd dl))"
    by (simp add: filter_map comp_def)
  finally show ?thesis .
qed

lemma slot_send_display_key:
  "ctx_url v = Some u \<Longrightarrow> lifecycle v \<noteq> Idle \<Longrightarrow>
   ctx_url (slot_send v (DISPLAY p u)) = ctx_url v \<and>
   lifecycle (slot_send v (DISPLAY p u)) = lifecycle v"
  by (cases "lifecycle v") simp_all

lemma slot_send_display_not_idle: "lifecycle (slot_send v (DISPLAY p u)) \<noteq> Idle"
  by (cases "lifecycle v") simp_all

lemma slot_send_clear_idle: "lifecycle (slot_send v CLEAR) = Idle"
  by simp


lemma second_pass_keeps_urls:
  assumes "send E = slot_send"
    and "setViews E views boxes = Inr (views1, log1)"
  shows "\<exists>views2 log2. setViews E views1 boxes = Inr (views2, log2) \<and>
           length views2 = length views1 \<and>
           (\<forall>s < length views1. ctx_url (views2 ! s) = ctx_url (views1 ! s) \<and>
                                 lifecycle (views2 ! s) = lifecycle (views1 ! s))"
proof -
  let ?n = "length views"
  from setViews_Inr[OF assms(2)] obtain dl where dl:
    "map snd dl = map (display_event E) (filter (\<lambda>b. \<not> falsy (box_url b)) boxes)"
    "distinct (map fst dl)"
    "\<forall>s \<in> fst ` set dl. s < length views"
    "length views1 = length views"
    "\<forall>(s, ev) \<in> set dl. views1 ! s = send E (views ! s) ev"
    "\<forall>s < length views. s \<notin> fst ` set dl \<longrightarrow> views1 ! s = send E (views ! s) CLEAR"
    by blast
  have disp: "\<forall>s ev. (s, ev) \<in> set dl \<longrightarrow> (\<exists>p u. ev = DISPLAY p u)"
  proof (intro allI impI)
    fix s ev assume "(s, ev) \<in> set dl"
    then have "ev \<in> set (map snd dl)" by force
    then show "\<exists>p u. ev = DISPLAY p u" unfolding dl(1) by (auto simp: display_event_def)
  qed
  have claimed: "\<forall>s ev. (s, ev) \<in> set dl \<longrightarrow>
      s < ?n \<and> ctx_url (views1 ! s) = event_url ev \<and> lifecycle (views1 ! s) \<noteq> Idle"
  proof (intro allI impI)
    fix s ev assume m: "(s, ev) \<in> set dl"
    then have "s \<in> fst ` set dl" by force
    with dl(3) have r: "s < ?n" by blast
    from disp m obtain p u where ev: "ev = DISPLAY p u" by blast
    from dl(5) m have "views1 ! s = slot_send (views ! s) ev" using assms(1) by auto
    with ev r show "s < ?n \<and> ctx_url (views1 ! s) = event_url ev \<and> lifecycle (views1 ! s) \<noteq> Idle"
      by (simp del: slot_send.simps add: slot_send_display_url slot_send_display_not_idle)
  qed
  have unclaimed: "\<forall>s < ?n. s \<notin> fst ` set dl \<longrightarrow>
      ctx_url (views1 ! s) = None \<and> lifecycle (views1 ! s) = Idle"
    using dl(6) assms(1) by (simp del: slot_send.simps add: slot_send_clear_url slot_send_clear_idle)
  have not_idle: "\<forall>s < ?n. ctx_url (views1 ! s) \<noteq> None \<longrightarrow> lifecycle (views1 ! s) \<noteq> Idle"
  proof (intro allI impI)
    fix s assume s: "s < ?n" "ctx_url (views1 ! s) \<noteq> None"
    have "s \<in> fst ` set dl"
    proof (rule ccontr)
      assume "s \<notin> fst ` set dl"
      with unclaimed s(1) have "ctx_url (views1 ! s) = None" by simp
      with s(2) show False by simp
    qed
    then obtain ev where m: "(s, ev) \<in> set dl" by auto
    from claimed[rule_format, OF m] show "lifecycle (views1 ! s) \<noteq> Idle" by simp
  qed
  have cnt: "\<forall>u. length (filter (\<lambda>s. ctx_url (views1 ! s) = Some u) [0..<length views1]) =
               length (filter (\<lambda>b. \<not> falsy (box_url b) \<and> box_url b = Some u) boxes)"
  proof
    fix u
    have c2: "\<forall>s ev. (s, ev) \<in> set dl \<longrightarrow> s < ?n \<and> ctx_url (views1 ! s) = event_url ev"
      using claimed by blast
    have c3: "\<forall>s < ?n. s \<notin> fst ` set dl \<longrightarrow> ctx_url (views1 ! s) = None"
      using unclaimed by blast
    have "length (filter (\<lambda>s. ctx_url (views1 ! s) = Some u) [0..<?n]) =
        length (filter (\<lambda>ev. event_url ev = Some u) (map snd dl))"
      using dl(2) c2 c3 by (rule count_claimed)
    also have "\<dots> = length (filter (\<lambda>b. event_url (display_event E b) = Some u)
        (filter (\<lambda>b. \<not> falsy (box_url b)) boxes))"
      unfolding dl(1) by (simp add: filter_map comp_def)
    also have "\<dots> = length (filter (\<lambda>b. \<not> falsy (box_url b) \<and>
        event_url (display_event E b) = Some u) boxes)"
      by (simp add: conj_commute)
    also have "filter (\<lambda>b. \<not> falsy (box_url b) \<and> event_url (display_event E b) = Some u) boxes =
        filter (\<lambda>b. \<not> falsy (box_url b) \<and> box_url b = Some u) boxes"
    proof (rule filter_cong[OF refl])
      fix b
      show "(\<not> falsy (box_url b) \<and> event_url (display_event E b) = Some u) =
            (\<not> falsy (box_url b) \<and> box_url b = Some u)"
        by (cases "box_url b") (simp_all add: falsy_def display_event_def)
    qed
    finally show "length (filter (\<lambda>s. ctx_url (views1 ! s) = Some u) [0..<length views1]) =
               length (filter (\<lambda>b. \<not> falsy (box_url b) \<and> box_url b = Some u) boxes)"
      unfolding dl(4) .
  qed
  have "distinct [0..<length views1]" "\<forall>s \<in> set [0..<length views1]. s < length views1"
    by simp_all
  from plan_boxes_again[OF cnt this, of E] obtain cmds un where pl:
    "plan_boxes E views1 boxes [0..<length views1] = (cmds, un, True)"
    "distinct (map fst cmds)"
    "\<forall>s ev. (s, ev) \<in> set cmds \<longrightarrow> s \<in> set [0..<length views1] \<and>
            (\<exists>p u. ev = DISPLAY p u \<and> ctx_url (views1 ! s) = Some u)"
    "un = filter (\<lambda>s. s \<notin> fst ` set cmds) [0..<length views1]"
    "\<forall>s \<in> set un. ctx_url (views1 ! s) = None"
    by blast
  let ?cl = "map (\<lambda>s. (s, CLEAR)) un"
  obtain va la where ia: "issue E cmds views1 [] = (va, la)" by (cases "issue E cmds views1 []")
  obtain views2 log2 where ic: "issue E ?cl va la = (views2, log2)" by (cases "issue E ?cl va la")
  have lva: "length va = length views1" using length_issue[of E cmds views1 "[]"] ia by simp
  have lv2: "length views2 = length views1" using length_issue[of E ?cl va la] ic lva by simp
  have "assign_boxes E boxes views1 [0..<length views1] [] = Inr (va, un, la)"
    using assign_boxes_plan[of views1 views1 "[0..<length views1]" E boxes "[]"] pl(1) ia by simp
  then have res: "setViews E views1 boxes = Inr (views2, log2)"
    using ic by (simp add: setViews_def clear_unused_issue)
  have dcl: "distinct (map fst ?cl)" unfolding pl(4) by (simp add: comp_def)
  have fcl: "fst ` set ?cl = set un" by force
  have keys: "\<forall>s < length views1. ctx_url (views2 ! s) = ctx_url (views1 ! s) \<and>
                                 lifecycle (views2 ! s) = lifecycle (views1 ! s)"
  proof (intro allI impI)
    fix s assume s: "s < length views1"
    show "ctx_url (views2 ! s) = ctx_url (views1 ! s) \<and> lifecycle (views2 ! s) = lifecycle (views1 ! s)"
    proof (cases "s \<in> fst ` set cmds")
      case True
      then obtain ev where m: "(s, ev) \<in> set cmds" by auto
      with pl(3) obtain p u where ev: "ev = DISPLAY p u" and url: "ctx_url (views1 ! s) = Some u"
        by blast
      from url s not_idle dl(4) have ni: "lifecycle (views1 ! s) \<noteq> Idle" by simp
      from True have "s \<notin> set un" unfolding pl(4) by simp
      then have "s \<notin> fst ` set ?cl" using fcl by simp
      from issue_nth_other[OF this, of E va la] ic have "views2 ! s = va ! s" by simp
      also from issue_nth_sent[OF pl(2) m s, of E "[]"] ia
      have "va ! s = slot_send (views1 ! s) ev" using assms(1) by simp
      finally have "views2 ! s = slot_send (views1 ! s) (DISPLAY p u)" unfolding ev .
      with slot_send_display_key[OF url ni, of p] show ?thesis by simp
    next
      case False
      with s have su: "s \<in> set un" unfolding pl(4) by simp
      with pl(5) have url: "ctx_url (views1 ! s) = None" by blast
      have "s \<notin> fst ` set dl"
      proof
        assume "s \<in> fst ` set dl"
        then obtain ev where m: "(s, ev) \<in> set dl" by auto
        with claimed have "ctx_url (views1 ! s) = event_url ev" by blast
        moreover from disp m obtain p u where "ev = DISPLAY p u" by blast
        ultimately show False using url by simp
      qed
      with unclaimed s dl(4) have idle: "lifecycle (views1 ! s) = Idle" by simp
      from issue_nth_other[OF False, of E views1 "[]"] ia have vs: "va ! s = views1 ! s" by simp
      from su have "(s, CLEAR) \<in> set ?cl" by simp
      from issue_nth_sent[OF dcl this, of va E la] s lva ic
      have "views2 ! s = slot_send (va ! s) CLEAR" using assms(1) by simp
      with vs url idle show ?thesis
        by (simp del: slot_send.simps add: slot_send_clear_url slot_send_clear_idle)
    qed
  qed
  from res lv2 keys show ?thesis by blast
qed

text \<open>
  A pass that runs to its end reaches the second loop: a view of the pool is then sent
  \<open>CLEAR\<close> exactly when no \<open>DISPLAY\<close> was sent to it, and ends in the state the machine
  gives for \<open>CLEAR\<close>.
\<close>

lemma completed_pass_clears_unclaimed:
  assumes "setViews E views boxes = Inr (views', log)"
  shows "\<forall>s < length views.
           ((s, CLEAR) \<in> set log) = (\<not> (\<exists>p u. (s, DISPLAY p u) \<in> set log)) \<and>
           ((s, CLEAR) \<in> set log \<longrightarrow> views' ! s = send E (views ! s) CLEAR)"
proof (clarify)
  fix s assume s: "s < length views"
  from setViews_Inr[OF assms] obtain dl where dl:
    "log = dl @ map (\<lambda>s. (s, CLEAR)) (filter (\<lambda>s. s \<notin> fst ` set dl) [0..<length views])"
    "map snd dl = map (display_event E) (filter (\<lambda>b. \<not> falsy (box_url b)) boxes)"
    "\<forall>s < length views. s \<notin> fst ` set dl \<longrightarrow> views' ! s = send E (views ! s) CLEAR"
    by blast
  have disp: "\<forall>(s, ev) \<in> set dl. \<exists>p u. ev = DISPLAY p u"
  proof (clarify)
    fix s ev assume "(s, ev) \<in> set dl"
    then have "ev \<in> set (map snd dl)" by force
    then show "\<exists>p u. ev = DISPLAY p u" unfolding dl(2) by (auto simp: display_event_def)
  qed
  have a: "((s, CLEAR) \<in> set log) = (s \<notin> fst ` set dl)"
    unfolding dl(1) using s disp by force
  have b: "(\<exists>p u. (s, DISPLAY p u) \<in> set log) = (s \<in> fst ` set dl)"
    unfolding dl(1) using disp by force
  show "((s, CLEAR) \<in> set log) = (\<not> (\<exists>p u. (s, DISPLAY p u) \<in> set log)) \<and>
           ((s, CLEAR) \<in> set log \<longrightarrow> views' ! s = send E (views ! s) CLEAR)"
    using a b dl(3) s by simp
qed

subsection \<open>The claims\<close>

text \<open>
  Claim C1. Let a pass of \<open>setViews\<close> have processed the boxes \<open>pre\<close> and reached the
  views, the set \<open>unusedViews\<close> and the events sent \<open>log\<close>, and let \<open>b\<close> be the next box,
  with a truthy url. If some unused view has the url of \<open>b\<close>, a view that is unused and has
  that url receives the \<open>DISPLAY\<close> of \<open>b\<close> and leaves \<open>unusedViews\<close>. Only when no unused
  view has the url does an unused view that is not displaying receive it. When there is
  neither, the pass ends with the TypeError.
\<close>

theorem setViews_same_url_first:
  assumes "\<not> falsy (box_url b)"
    and "assign_boxes E pre views0 [0..<length views0] [] = Inr (views, unusedViews, log)"
  shows "if \<exists>s \<in> set unusedViews. ctx_url (views ! s) = box_url b
         then \<exists>s \<in> set unusedViews. ctx_url (views ! s) = box_url b \<and>
           assign_boxes E (pre @ b # post) views0 [0..<length views0] [] =
             assign_boxes E post (views[s := send E (views ! s) (display_event E b)])
               (removeAll s unusedViews) (log @ [(s, display_event E b)])
         else if \<exists>s \<in> set unusedViews. \<not> matches_displaying (views ! s)
         then \<exists>s \<in> set unusedViews. \<not> matches_displaying (views ! s) \<and>
           assign_boxes E (pre @ b # post) views0 [0..<length views0] [] =
             assign_boxes E post (views[s := send E (views ! s) (display_event E b)])
               (removeAll s unusedViews) (log @ [(s, display_event E b)])
         else assign_boxes E (pre @ b # post) views0 [0..<length views0] [] =
             Inl (TypeError views log)"
proof -
  from assms(1) obtain u where u: "box_url b = Some u" by (cases "box_url b") (auto simp: falsy_def)
  from assign_boxes_Inr[OF assms(2)] have range: "\<forall>s \<in> set unusedViews. s < length views"
    by auto
  have step: "assign_boxes E (pre @ b # post) views0 [0..<length views0] [] =
    (case find_space views unusedViews u of
       None \<Rightarrow> Inl (TypeError views log)
     | Some s \<Rightarrow> assign_boxes E post (views[s := send E (views ! s) (display_event E b)])
               (removeAll s unusedViews) (log @ [(s, display_event E b)]))"
    using assms u by (simp add: assign_boxes_append)
  show ?thesis
  proof (cases "\<exists>s \<in> set unusedViews. ctx_url (views ! s) = box_url b")
    case True
    then obtain s where "s \<in> set unusedViews" "ctx_url (views ! s) = Some u" using u by auto
    with range find_space_same_url[of s unusedViews views u]
    obtain s' where "find_space views unusedViews u = Some s'" "s' \<in> set unusedViews"
      "ctx_url (views ! s') = Some u" by blast
    with step u True show ?thesis by auto
  next
    case False
    then have no: "\<forall>s \<in> set unusedViews. ctx_url (views ! s) \<noteq> Some u" using u by simp
    note fs = find_space_other_url[OF no]
    show ?thesis
    proof (cases "\<exists>s \<in> set unusedViews. \<not> matches_displaying (views ! s)")
      case True
      with range have "List.find (\<lambda>s. s \<in> set unusedViews \<and> \<not> matches_displaying (views ! s))
          [0..<length views] \<noteq> None"
        by (auto simp: find_None_iff)
      then obtain s' where s': "find_space views unusedViews u = Some s'" using fs by auto
      with fs have "List.find (\<lambda>s. s \<in> set unusedViews \<and> \<not> matches_displaying (views ! s))
          [0..<length views] = Some s'" by simp
      from find_holds[OF this] have "s' \<in> set unusedViews \<and> \<not> matches_displaying (views ! s')"
        by simp
      with step s' False True show ?thesis by auto
    next
      case True': False
      then have "find_space views unusedViews u = None"
        using fs by (auto simp: find_None_iff)
      with step False True' show ?thesis by simp
    qed
  qed
qed

text \<open>
  On the wall where view 1 displays \<open>a\<close> and view 0 is idle, a region with url \<open>a\<close> is
  processed first; the hypotheses hold and the first branch is taken.
\<close>

theorem setViews_same_url_first_witness:
  "\<not> falsy (box_url (box_at ''a'' 0)) \<and>
   assign_boxes spec_deps [] shifted_wall [0..<length shifted_wall] [] =
     Inr (shifted_wall, [0..<length shifted_wall], []) \<and>
   (\<exists>s \<in> set [0..<length shifted_wall].
      ctx_url (shifted_wall ! s) = box_url (box_at ''a'' 0) \<and>
      assign_boxes spec_deps ([] @ box_at ''a'' 0 # [box_at ''a'' 2]) shifted_wall
          [0..<length shifted_wall] [] =
        assign_boxes spec_deps [box_at ''a'' 2]
          (shifted_wall[s := send spec_deps (shifted_wall ! s) (display_event spec_deps (box_at ''a'' 0))])
          (removeAll s [0..<length shifted_wall])
          ([] @ [(s, display_event spec_deps (box_at ''a'' 0))]))"
proof -
  have h1: "\<not> falsy (box_url (box_at ''a'' 0))" by code_simp
  have h2: "assign_boxes spec_deps [] shifted_wall [0..<length shifted_wall] [] =
     Inr (shifted_wall, [0..<length shifted_wall], [])" by simp
  have c: "\<exists>s \<in> set [0..<length shifted_wall]. ctx_url (shifted_wall ! s) = box_url (box_at ''a'' 0)"
    by code_simp
  from setViews_same_url_first[OF h1 h2, of "[box_at ''a'' 2]"] c
  have "\<exists>s \<in> set [0..<length shifted_wall].
      ctx_url (shifted_wall ! s) = box_url (box_at ''a'' 0) \<and>
      assign_boxes spec_deps ([] @ box_at ''a'' 0 # [box_at ''a'' 2]) shifted_wall
          [0..<length shifted_wall] [] =
        assign_boxes spec_deps [box_at ''a'' 2]
          (shifted_wall[s := send spec_deps (shifted_wall ! s) (display_event spec_deps (box_at ''a'' 0))])
          (removeAll s [0..<length shifted_wall])
          ([] @ [(s, display_event spec_deps (box_at ''a'' 0))])"
    by (simp only: if_True)
  with h1 h2 show ?thesis by (intro conjI)
qed

text \<open>
  Claim C2 says that a search finds a candidate whenever the regions with a url do not
  outnumber the pool. On the full wall (ten views, all displaying) one region with a new
  url is fewer than the ten views, and yet neither search finds a view: none has the url
  and none is not displaying. The pass ends with the TypeError before any event is sent.
\<close>

theorem setViews_full_wall_no_candidate:
  "length (filter (\<lambda>b. \<not> falsy (box_url b)) [box_at ''b'' 0]) \<le> length full_wall \<and>
   list_all matches_displaying full_wall \<and>
   setViews spec_deps full_wall [box_at ''b'' 0] = Inl (TypeError full_wall [])"
  by code_simp

text \<open>
  The failure recorded for the full wall: nothing was sent before the TypeError.
\<close>

theorem setViews_full_wall_no_candidate_witness:
  "sent_by (setViews spec_deps full_wall [box_at ''b'' 0]) = []"
proof -
  from setViews_full_wall_no_candidate
  have "setViews spec_deps full_wall [box_at ''b'' 0] = Inl (TypeError full_wall [])"
    by (elim conjE)
  then show ?thesis by (simp only: sent_by.simps)
qed

text \<open>
  Claim C3. When every displaying view has a position, \<open>setListeningView\<close> returns, and
  for every view: it is sent \<open>UNMUTE\<close> exactly when it is displaying and its \<open>spaces\<close>
  contain the index; it is sent \<open>MUTE\<close> exactly when it is displaying and its \<open>spaces\<close> do
  not contain the index; a view that is not displaying is sent nothing and keeps its state.
\<close>

theorem setListeningView_routes:
  assumes "\<forall>v \<in> set views. matches_displaying v \<longrightarrow> ctx_pos v \<noteq> None"
  shows "\<exists>views' log. setListeningView E views c = Inr (views', log) \<and>
     length views' = length views \<and>
     (\<forall>i < length views.
        ((i, UNMUTE) \<in> set log) =
          (matches_displaying (views ! i) \<and> (\<exists>p. ctx_pos (views ! i) = Some p \<and> c \<in> set (spaces p))) \<and>
        ((i, MUTE) \<in> set log) =
          (matches_displaying (views ! i) \<and> (\<exists>p. ctx_pos (views ! i) = Some p \<and> c \<notin> set (spaces p))) \<and>
        (\<not> matches_displaying (views ! i) \<longrightarrow> (\<forall>ev. (i, ev) \<notin> set log) \<and> views' ! i = views ! i) \<and>
        (matches_displaying (views ! i) \<longrightarrow>
           views' ! i = send E (views ! i) (focus_event (views ! i) c)))"
proof -
  let ?cmds = "focus_cmds views c [0..<length views]"
  have pos: "\<forall>i \<in> set [0..<length views]. matches_displaying (views ! i) \<longrightarrow> ctx_pos (views ! i) \<noteq> None"
    using assms by simp
  have r: "setListeningView E views c = Inr (issue E ?cmds views [])"
    unfolding setListeningView_def by (rule listen_views_issue[OF _ pos]) simp
  obtain views' log where i: "issue E ?cmds views [] = (views', log)" by (cases "issue E ?cmds views []")
  have log: "log = ?cmds" using snd_issue[of E ?cmds views "[]"] i by simp
  have len: "length views' = length views" using length_issue[of E ?cmds views "[]"] i by simp
  have d: "distinct (map fst ?cmds)" by (simp add: focus_cmds_def comp_def)
  have "\<forall>i < length views.
        ((i, UNMUTE) \<in> set log) =
          (matches_displaying (views ! i) \<and> (\<exists>p. ctx_pos (views ! i) = Some p \<and> c \<in> set (spaces p))) \<and>
        ((i, MUTE) \<in> set log) =
          (matches_displaying (views ! i) \<and> (\<exists>p. ctx_pos (views ! i) = Some p \<and> c \<notin> set (spaces p))) \<and>
        (\<not> matches_displaying (views ! i) \<longrightarrow> (\<forall>ev. (i, ev) \<notin> set log) \<and> views' ! i = views ! i) \<and>
        (matches_displaying (views ! i) \<longrightarrow>
           views' ! i = send E (views ! i) (focus_event (views ! i) c))"
  proof (intro allI impI)
    fix i assume il: "i < length views"
    have p: "matches_displaying (views ! i) \<Longrightarrow> \<exists>p. ctx_pos (views ! i) = Some p"
      using assms il by auto
    have 1: "((i, UNMUTE) \<in> set log) =
          (matches_displaying (views ! i) \<and> (\<exists>p. ctx_pos (views ! i) = Some p \<and> c \<in> set (spaces p)))"
      unfolding log using il p by (auto simp: focus_cmds_def focus_event_def split: option.splits if_splits)
    have 2: "((i, MUTE) \<in> set log) =
          (matches_displaying (views ! i) \<and> (\<exists>p. ctx_pos (views ! i) = Some p \<and> c \<notin> set (spaces p)))"
      unfolding log using il p by (auto simp: focus_cmds_def focus_event_def split: option.splits if_splits)
    have 3: "\<not> matches_displaying (views ! i) \<longrightarrow> (\<forall>ev. (i, ev) \<notin> set log) \<and> views' ! i = views ! i"
    proof
      assume n: "\<not> matches_displaying (views ! i)"
      then have "i \<notin> fst ` set ?cmds" by (auto simp: focus_cmds_def)
      from issue_nth_other[OF this, of E views "[]"] i have "views' ! i = views ! i" by simp
      moreover have "\<forall>ev. (i, ev) \<notin> set log" unfolding log using n by (auto simp: focus_cmds_def)
      ultimately show "(\<forall>ev. (i, ev) \<notin> set log) \<and> views' ! i = views ! i" by simp
    qed
    have 4: "matches_displaying (views ! i) \<longrightarrow>
           views' ! i = send E (views ! i) (focus_event (views ! i) c)"
    proof
      assume y: "matches_displaying (views ! i)"
      then have "(i, focus_event (views ! i) c) \<in> set ?cmds" using il by (auto simp: focus_cmds_def)
      from issue_nth_sent[OF d this il, of E "[]"] i
      show "views' ! i = send E (views ! i) (focus_event (views ! i) c)" by simp
    qed
    from 1 2 3 4 show "((i, UNMUTE) \<in> set log) =
          (matches_displaying (views ! i) \<and> (\<exists>p. ctx_pos (views ! i) = Some p \<and> c \<in> set (spaces p))) \<and>
        ((i, MUTE) \<in> set log) =
          (matches_displaying (views ! i) \<and> (\<exists>p. ctx_pos (views ! i) = Some p \<and> c \<notin> set (spaces p))) \<and>
        (\<not> matches_displaying (views ! i) \<longrightarrow> (\<forall>ev. (i, ev) \<notin> set log) \<and> views' ! i = views ! i) \<and>
        (matches_displaying (views ! i) \<longrightarrow>
           views' ! i = send E (views ! i) (focus_event (views ! i) c))" by blast
  qed
  moreover from r i have "setListeningView E views c = Inr (views', log)" by simp
  ultimately show ?thesis using len by (intro exI[of _ views'] exI[of _ log] conjI)
qed

text \<open>
  On the wall with one stream at cell 0, focus on cell 0: the view of index 0 is sent
  \<open>UNMUTE\<close> and not \<open>MUTE\<close>, and the idle view of index 1 is not sent \<open>MUTE\<close>.
\<close>

theorem setListeningView_routes_witness:
  "(0, UNMUTE) \<in> set (sent_by (setListeningView spec_deps listening_wall 0)) \<and>
   (0, MUTE) \<notin> set (sent_by (setListeningView spec_deps listening_wall 0)) \<and>
   (1, MUTE) \<notin> set (sent_by (setListeningView spec_deps listening_wall 0))"
proof -
  have h: "\<forall>v \<in> set listening_wall. matches_displaying v \<longrightarrow> ctx_pos v \<noteq> None"
    by code_simp
  from setListeningView_routes[OF h, of spec_deps 0] obtain views' log where
    r: "setListeningView spec_deps listening_wall 0 = Inr (views', log)" and
    p: "\<forall>i < length listening_wall.
        ((i, UNMUTE) \<in> set log) =
          (matches_displaying (listening_wall ! i) \<and>
            (\<exists>p. ctx_pos (listening_wall ! i) = Some p \<and> 0 \<in> set (spaces p))) \<and>
        ((i, MUTE) \<in> set log) =
          (matches_displaying (listening_wall ! i) \<and>
            (\<exists>p. ctx_pos (listening_wall ! i) = Some p \<and> 0 \<notin> set (spaces p))) \<and>
        (\<not> matches_displaying (listening_wall ! i) \<longrightarrow>
           (\<forall>ev. (i, ev) \<notin> set log) \<and> views' ! i = listening_wall ! i) \<and>
        (matches_displaying (listening_wall ! i) \<longrightarrow>
           views' ! i = send spec_deps (listening_wall ! i) (focus_event (listening_wall ! i) 0))"
    by blast
  have l0: "0 < length listening_wall" and l1: "1 < length listening_wall" by code_simp+
  have d0: "matches_displaying (listening_wall ! 0)" by code_simp
  have p0: "ctx_pos (listening_wall ! 0) = Some (box_pos spec_deps (box_at ''a'' 0))" by code_simp
  have s0: "(0::int) \<in> set (spaces (box_pos spec_deps (box_at ''a'' 0)))" by code_simp
  have d1: "\<not> matches_displaying (listening_wall ! 1)" by code_simp
  from p[rule_format, OF l0] d0 p0 s0 have a: "(0, UNMUTE) \<in> set log" "(0, MUTE) \<notin> set log"
    by auto
  from p[rule_format, OF l1] d1 have b: "(1, MUTE) \<notin> set log" by blast
  from a b show ?thesis unfolding r by simp
qed

text \<open>
  Claim C4 says that a focus index outside the grid is rejected and changes no mute state.
  On the wall with one stream that has the focus, the view of index 0 is not muted; the
  index \<open>-1\<close>, which is outside every grid, makes \<open>setListeningView\<close> send it \<open>MUTE\<close>, and
  it is muted afterwards.
\<close>

theorem setListeningView_outside_grid_counterexample:
  "muted (listening_wall ! 0) = False \<and>
   sent_by (setListeningView spec_deps listening_wall (- 1)) = [(0, MUTE)] \<and>
   muted (views_after (setListeningView spec_deps listening_wall (- 1)) ! 0) = True"
  by code_simp

text \<open>
  Claim C4, amended. \<open>setListeningView\<close> checks no bounds and keeps no previous focus. For
  an index that the \<open>spaces\<close> of no displaying view contain, as an index outside the grid
  is, it returns normally, sends \<open>MUTE\<close> to every displaying view, in the order of the
  pool, and sends nothing else.
\<close>

theorem setListeningView_unchecked:
  assumes "\<forall>v \<in> set views. matches_displaying v \<longrightarrow>
             (case ctx_pos v of None \<Rightarrow> False | Some p \<Rightarrow> c \<notin> set (spaces p))"
  shows "sent_by (setListeningView E views c) =
           map (\<lambda>i. (i, MUTE)) (filter (\<lambda>i. matches_displaying (views ! i)) [0..<length views]) \<and>
         (\<exists>views'. setListeningView E views c = Inr (views', sent_by (setListeningView E views c)) \<and>
            (\<forall>i < length views. views' ! i =
               (if matches_displaying (views ! i) then send E (views ! i) MUTE else views ! i)))"
proof -
  let ?cmds = "focus_cmds views c [0..<length views]"
  let ?ml = "map (\<lambda>i. (i, MUTE)) (filter (\<lambda>i. matches_displaying (views ! i)) [0..<length views])"
  have pos: "\<forall>i \<in> set [0..<length views]. matches_displaying (views ! i) \<longrightarrow> ctx_pos (views ! i) \<noteq> None"
    using assms by (auto split: option.splits)
  have r: "setListeningView E views c = Inr (issue E ?cmds views [])"
    unfolding setListeningView_def by (rule listen_views_issue[OF _ pos]) simp
  have fe: "\<forall>i \<in> set [0..<length views]. matches_displaying (views ! i) \<longrightarrow> focus_event (views ! i) c = MUTE"
  proof (intro ballI impI)
    fix i assume "i \<in> set [0..<length views]" "matches_displaying (views ! i)"
    with assms obtain p where "ctx_pos (views ! i) = Some p" "c \<notin> set (spaces p)"
      by (cases "ctx_pos (views ! i)") auto
    then show "focus_event (views ! i) c = MUTE" by (simp add: focus_event_def)
  qed
  have cm: "?cmds = ?ml" unfolding focus_cmds_def using fe by (intro map_cong) auto
  obtain views' log where i: "issue E ?cmds views [] = (views', log)" by (cases "issue E ?cmds views []")
  have log: "log = ?ml" using snd_issue[of E ?cmds views "[]"] i cm by simp
  have d: "distinct (map fst ?ml)" by (simp add: comp_def)
  have v: "\<forall>i < length views. views' ! i =
               (if matches_displaying (views ! i) then send E (views ! i) MUTE else views ! i)"
  proof (intro allI impI)
    fix j assume jl: "j < length views"
    show "views' ! j = (if matches_displaying (views ! j) then send E (views ! j) MUTE else views ! j)"
    proof (cases "matches_displaying (views ! j)")
      case True
      then have "(j, MUTE) \<in> set ?ml" using jl by auto
      from issue_nth_sent[OF d this jl, of E "[]"] i cm True show ?thesis by simp
    next
      case False
      then have "j \<notin> fst ` set ?ml" by auto
      from issue_nth_other[OF this, of E views "[]"] i cm False show ?thesis by simp
    qed
  qed
  from r i log v show ?thesis by simp
qed

text \<open>
  The index \<open>-1\<close> on the wall with one stream satisfies the hypothesis.
\<close>

theorem setListeningView_unchecked_witness:
  "sent_by (setListeningView spec_deps listening_wall (- 1)) =
     map (\<lambda>i. (i, MUTE)) (filter (\<lambda>i. matches_displaying (listening_wall ! i))
       [0..<length listening_wall]) \<and>
   (\<exists>views'. setListeningView spec_deps listening_wall (- 1) =
        Inr (views', sent_by (setListeningView spec_deps listening_wall (- 1))) \<and>
      (\<forall>i < length listening_wall. views' ! i =
         (if matches_displaying (listening_wall ! i) then send spec_deps (listening_wall ! i) MUTE
          else listening_wall ! i)))"
proof -
  have h: "\<forall>v \<in> set listening_wall. matches_displaying v \<longrightarrow>
             (case ctx_pos v of None \<Rightarrow> False | Some p \<Rightarrow> (- 1) \<notin> set (spaces p))"
    by code_simp
  from setListeningView_unchecked[OF h, of spec_deps] show ?thesis .
qed

text \<open>
  Claim C5 says that in every pass each view that no region claims is sent \<open>CLEAR\<close>
  before the pass ends. On the full wall the layout with \<open>aa\<close> at cell 0 and the new url
  \<open>b\<close> at cell 1 has two regions for ten views. The region \<open>aa\<close> takes the view of index
  1, which holds its url. For \<open>b\<close> neither search finds a view, since the nine unused views
  all display other urls, and the TypeError leaves \<open>setViews\<close> before the loop that clears:
  the one event sent is the \<open>DISPLAY\<close> to the view of index 1, no view is sent \<open>CLEAR\<close>,
  and all ten views are displaying when the pass has ended.
\<close>

theorem setViews_aborted_pass_no_clear:
  "length (filter (\<lambda>b. \<not> falsy (box_url b)) [box_at ''aa'' 0, box_at ''b'' 1]) \<le> length full_wall \<and>
   setViews spec_deps full_wall [box_at ''aa'' 0, box_at ''b'' 1] =
     Inl (TypeError
       (full_wall[1 := slot_send (full_wall ! 1) (display_event spec_deps (box_at ''aa'' 0))])
       [(1, display_event spec_deps (box_at ''aa'' 0))]) \<and>
   filter (\<lambda>s. (s, CLEAR) \<in> set (sent_by (setViews spec_deps full_wall [box_at ''aa'' 0, box_at ''b'' 1])))
     [0..<length full_wall] = [] \<and>
   map lifecycle (views_after (setViews spec_deps full_wall [box_at ''aa'' 0, box_at ''b'' 1])) =
     replicate 10 Displaying"
  by code_simp

text \<open>
  Claim C6. In a pass of \<open>setViews\<close> in which every search finds a candidate, the views
  that are sent a \<open>DISPLAY\<close> are pairwise distinct, and the \<open>DISPLAY\<close> events are, in
  order, those of the boxes with a truthy url: each such box claims one view, and no view
  is claimed twice.
\<close>

theorem setViews_assignment_distinct:
  assumes "setViews E views boxes = Inr (views', log)"
  shows "distinct (map fst (filter (\<lambda>(s, ev). is_display ev) log)) \<and>
         map snd (filter (\<lambda>(s, ev). is_display ev) log) =
           map (display_event E) (filter (\<lambda>b. \<not> falsy (box_url b)) boxes)"
proof -
  from setViews_Inr[OF assms] obtain dl where dl:
    "log = dl @ map (\<lambda>s. (s, CLEAR)) (filter (\<lambda>s. s \<notin> fst ` set dl) [0..<length views])"
    "map snd dl = map (display_event E) (filter (\<lambda>b. \<not> falsy (box_url b)) boxes)"
    "distinct (map fst dl)"
    by blast
  have disp: "\<forall>x \<in> set dl. is_display (snd x)"
  proof
    fix x assume "x \<in> set dl"
    then have "snd x \<in> set (map snd dl)" by force
    then show "is_display (snd x)" unfolding dl(2) by (auto simp: display_event_def)
  qed
  have "filter (\<lambda>(s, ev). is_display ev) log = dl"
    unfolding dl(1) using disp by (auto simp: filter_id_conv filter_empty_conv split: prod.splits)
  with dl(2,3) show ?thesis by simp
qed

text \<open>
  The pass of the layout with two regions of the same url claims two distinct views.
\<close>

theorem setViews_assignment_distinct_witness:
  "setViews spec_deps shifted_wall twin_layout =
     Inr (once_wall, sent_by (setViews spec_deps shifted_wall twin_layout)) \<and>
   distinct (map fst (filter (\<lambda>(s, ev). is_display ev)
     (sent_by (setViews spec_deps shifted_wall twin_layout)))) \<and>
   map snd (filter (\<lambda>(s, ev). is_display ev) (sent_by (setViews spec_deps shifted_wall twin_layout))) =
     map (display_event spec_deps) (filter (\<lambda>b. \<not> falsy (box_url b)) twin_layout)"
  using setViews_assignment_distinct[OF twin_pass_once] twin_pass_once by (intro conjI) simp_all

text \<open>
  Claim C7. The loop of \<open>setViews\<close>, which reads the views as they are between the sends,
  gives the same result (the same views, the same events sent to the same views, the same
  failure) as the variant that searches in the snapshot taken before the first command.
\<close>

theorem setViews_read_then_act_eq:
  "setViews E views boxes = setViews_read_then_act E views boxes"
  unfolding setViews_def setViews_read_then_act_def
  by (simp add: assign_boxes_plan[of views views] split: prod.splits)

text \<open>
  The two agree on the layout with two regions of the same url.
\<close>

theorem setViews_read_then_act_eq_witness:
  "setViews spec_deps shifted_wall twin_layout =
   setViews_read_then_act spec_deps shifted_wall twin_layout"
  by (rule setViews_read_then_act_eq)

text \<open>
  Claim C8 says that running the pass twice leaves every view as running it once does.
  With the machine of the specification, on the wall where view 1 displays \<open>a\<close> and view 0
  is idle, the layout with \<open>a\<close> in cells 0 and 2 is set twice; both passes run to their
  end. The first pass gives the view of index 1 the region of cell 0 and the idle view of
  index 0 the region of cell 2. In the second pass both views hold \<open>a\<close>, the region of
  cell 0 takes the first of them, the view of index 0, and the view of index 1 is moved to
  cell 2.
\<close>

theorem setViews_twice_counterexample:
  "setViews spec_deps shifted_wall twin_layout =
     Inr (once_wall, sent_by (setViews spec_deps shifted_wall twin_layout)) \<and>
   setViews spec_deps once_wall twin_layout =
     Inr (twice_wall, sent_by (setViews spec_deps once_wall twin_layout)) \<and>
   ctx_pos (once_wall ! 1) = Some (box_pos spec_deps (box_at ''a'' 0)) \<and>
   ctx_pos (twice_wall ! 1) = Some (box_pos spec_deps (box_at ''a'' 2)) \<and>
   twice_wall \<noteq> once_wall"
  by code_simp

text \<open>
  Claim C8, amended. With the machine of the specification, when a pass for a layout has
  run to its end, the same pass on the views it leaves runs to its end too and leaves
  every view with the same url and the same lifecycle state: each region takes a view
  that already holds its url, and such a view is not reloaded. When the regions with a url
  have pairwise distinct urls, the second pass also sends the same events to the same
  views and leaves every view as it is, position included.
\<close>

theorem setViews_twice:
  assumes "send E = slot_send"
    and "setViews E views boxes = Inr (views1, log1)"
  shows "\<exists>views2 log2. setViews E views1 boxes = Inr (views2, log2) \<and>
           map ctx_url views2 = map ctx_url views1 \<and>
           map lifecycle views2 = map lifecycle views1 \<and>
           (distinct (map box_url (filter (\<lambda>b. \<not> falsy (box_url b)) boxes)) \<longrightarrow>
              views2 = views1 \<and> log2 = log1)"
proof -
  from second_pass_keeps_urls[OF assms] obtain views2 log2 where
    res: "setViews E views1 boxes = Inr (views2, log2)" and
    len: "length views2 = length views1" and
    keys: "\<forall>s < length views1. ctx_url (views2 ! s) = ctx_url (views1 ! s) \<and>
                                 lifecycle (views2 ! s) = lifecycle (views1 ! s)"
    by blast
  have u: "map ctx_url views2 = map ctx_url views1"
    using len keys by (intro nth_equalityI) simp_all
  have l: "map lifecycle views2 = map lifecycle views1"
    using len keys by (intro nth_equalityI) simp_all
  have d: "distinct (map box_url (filter (\<lambda>b. \<not> falsy (box_url b)) boxes)) \<longrightarrow>
              views2 = views1 \<and> log2 = log1"
  proof
    assume "distinct (map box_url (filter (\<lambda>b. \<not> falsy (box_url b)) boxes))"
    from second_pass_fixed_point[OF assms(1) this assms(2)] res
    show "views2 = views1 \<and> log2 = log1" by simp
  qed
  from res u l d show ?thesis by blast
qed

text \<open>
  The layout with urls \<open>a\<close> and \<open>c\<close> on the wall where view 1 displays \<open>a\<close>: the second
  pass changes nothing. The layout with \<open>a\<close> in two cells: the urls are the same after
  the second pass as after the first.
\<close>

theorem setViews_twice_witness:
  "send spec_deps = slot_send \<and>
   distinct (map box_url (filter (\<lambda>b. \<not> falsy (box_url b)) distinct_layout)) \<and>
   setViews spec_deps shifted_wall distinct_layout =
     Inr (views_after (setViews spec_deps shifted_wall distinct_layout),
          sent_by (setViews spec_deps shifted_wall distinct_layout)) \<and>
   setViews spec_deps (views_after (setViews spec_deps shifted_wall distinct_layout)) distinct_layout =
     Inr (views_after (setViews spec_deps shifted_wall distinct_layout),
          sent_by (setViews spec_deps shifted_wall distinct_layout)) \<and>
   map ctx_url twice_wall = map ctx_url once_wall"
proof -
  have h1: "send spec_deps = slot_send" by (simp add: spec_deps_def)
  have h2: "distinct (map box_url (filter (\<lambda>b. \<not> falsy (box_url b)) distinct_layout))"
    by code_simp
  from setViews_twice[OF h1 distinct_pass_once] h2
  have a: "setViews spec_deps (views_after (setViews spec_deps shifted_wall distinct_layout))
      distinct_layout =
     Inr (views_after (setViews spec_deps shifted_wall distinct_layout),
          sent_by (setViews spec_deps shifted_wall distinct_layout))"
    by blast
  from setViews_twice[OF h1 twin_pass_once] obtain views2 log2 where
    r: "setViews spec_deps once_wall twin_layout = Inr (views2, log2)" and
    u: "map ctx_url views2 = map ctx_url once_wall"
    by blast
  from r have "twice_wall = views2" by (simp add: twice_wall_def)
  with u have b: "map ctx_url twice_wall = map ctx_url once_wall" by simp
  from h1 h2 distinct_pass_once a b show ?thesis by (intro conjI)
qed

text \<open>
  Claim C9. Whatever the page does, one run of the script sends \<open>view-loaded\<close> at most
  once, \<open>view-error\<close> at most once and \<open>view-info\<close> at most once. When the promise of
  \<open>main\<close> is fulfilled, \<open>main\<close> has sent \<open>view-loaded\<close> exactly once, as its last
  message. \<open>view-error\<close> is sent exactly when the promise of \<open>main\<close> rejects.
\<close>

theorem script_signals_once:
  "count_list (script pg) View_loaded \<le> 1 \<and>
   count_list (script pg) View_error \<le> 1 \<and>
   length (filter is_view_info (script pg)) \<le> 1 \<and>
   (snd (main pg) = Fulfilled () \<longrightarrow>
      count_list (fst (main pg)) View_loaded = 1 \<and> last (fst (main pg)) = View_loaded) \<and>
   (View_error \<in> set (script pg)) = (snd (main pg) = Rejected)"
  by (cases "view_init pg"; cases "findVideo pg")
     (auto simp: script_def main_def split: if_splits)

text \<open>
  A page with a video whose \<open>play\<close> event fires: \<open>main\<close> is fulfilled.
\<close>

theorem script_signals_once_witness:
  "snd (main video_page) = Fulfilled () \<and>
   count_list (fst (main video_page)) View_loaded = 1 \<and>
   last (fst (main video_page)) = View_loaded \<and>
   count_list (script video_page) View_error \<le> 1"
proof -
  have h: "snd (main video_page) = Fulfilled ()" by code_simp
  from script_signals_once[of video_page] h show ?thesis by blast
qed



end
